theory Spec2Isabelle
  imports Main "HOL-Library.Sublist" "HOL-Library.Char_ord" "HOL-Library.List_Lexorder"
    "HOL-Library.AList"
begin

section \<open>Go strings and the library functions the status parser calls\<close>

text \<open>
  A Go \<^verbatim>\<open>string\<close> is a sequence of bytes; it is modelled as \<^typ>\<open>string\<close> (a list of
  8-bit \<^typ>\<open>char\<close>). The functions of this section are the ones of Go's standard library
  that \<^verbatim>\<open>tools/diff-preview.go\<close> calls on strings: \<^verbatim>\<open>strings.Split\<close>,
  \<^verbatim>\<open>strings.SplitN\<close>, \<^verbatim>\<open>strings.TrimSpace\<close> (with the UTF-8 decoding it is built on),
  \<^verbatim>\<open>strings.Replace\<close> and \<^verbatim>\<open>filepath.Base\<close>.
\<close>

definition newline :: char where
  "newline = CHR 0x0A"

definition space :: char where
  "space = CHR 0x20"

definition slash :: char where
  "slash = CHR 0x2F"

definition backslash :: char where
  "backslash = CHR 0x5C"

text \<open>\<^verbatim>\<open>strings.Split(s, sep)\<close> for a one-byte separator: the pieces between the
  separators, one more than there are separators (so never the empty list).\<close>

fun strings_Split :: "string \<Rightarrow> char \<Rightarrow> string list" where
  "strings_Split [] sep = [[]]"
| "strings_Split (c # cs) sep =
     (let r = strings_Split cs sep
      in if c = sep then [] # r else (c # hd r) # tl r)"

text \<open>\<^verbatim>\<open>strings.SplitN(s, sep, 2)\<close> for a one-byte separator: at most two pieces, cut at
  the first separator; the second piece is the unsplit remainder.\<close>

definition strings_SplitN2 :: "string \<Rightarrow> char \<Rightarrow> string list" where
  "strings_SplitN2 s sep =
     (if sep \<in> set s
      then [takeWhile (\<lambda>c. c \<noteq> sep) s, tl (dropWhile (\<lambda>c. c \<noteq> sep) s)]
      else [s])"

text \<open>\<^verbatim>\<open>strings.Join(elems, sep)\<close> for a one-byte separator.\<close>

fun strings_Join :: "string list \<Rightarrow> char \<Rightarrow> string" where
  "strings_Join [] sep = []"
| "strings_Join [l] sep = l"
| "strings_Join (l # ls) sep = l @ sep # strings_Join ls sep"

text \<open>\<^verbatim>\<open>strings.Replace(s, "/", "\\", -1)\<close>: every occurrence of one byte replaced by
  another.\<close>

definition strings_Replace :: "string \<Rightarrow> char \<Rightarrow> char \<Rightarrow> string" where
  "strings_Replace s old new = map (\<lambda>c. if c = old then new else c) s"

subsection \<open>UTF-8 decoding (package unicode/utf8)\<close>

definition RuneError :: nat where
  "RuneError = 0xFFFD"

definition RuneSelf :: nat where
  "RuneSelf = 0x80"

definition UTFMax :: nat where
  "UTFMax = 4"

text \<open>The tables of \<^verbatim>\<open>utf8.DecodeRune\<close>: the width a first byte announces
  (\<^verbatim>\<open>first[s0] & 7\<close>, for the first bytes \<open>0xC2..0xF4\<close>), the range accepted for the
  second byte (\<^verbatim>\<open>acceptRanges\<close>: no overlong forms, no surrogates, nothing above
  U+10FFFF), and the range of a continuation byte (\<^verbatim>\<open>locb..hicb\<close>).\<close>

definition width :: "nat \<Rightarrow> nat" where
  "width s0 = (if s0 < 0xE0 then 2 else if s0 < 0xF0 then 3 else 4)"

definition accept :: "nat \<Rightarrow> nat \<Rightarrow> bool" where
  "accept s0 s1 =
     ((if s0 = 0xE0 then 0xA0 else if s0 = 0xF0 then 0x90 else 0x80) \<le> s1
      \<and> s1 \<le> (if s0 = 0xED then 0x9F else if s0 = 0xF4 then 0x8F else 0xBF))"

definition cont :: "nat \<Rightarrow> bool" where
  "cont b = (0x80 \<le> b \<and> b \<le> 0xBF)"

text \<open>\<^verbatim>\<open>utf8.DecodeRune\<close> on the bytes as numbers: the rune and its width in bytes.
  An invalid or short encoding is \<open>(RuneError, 1)\<close>; the empty input is \<open>(RuneError, 0)\<close>.\<close>

fun decode :: "nat list \<Rightarrow> nat \<times> nat" where
  "decode [] = (RuneError, 0)"
| "decode (s0 # r) =
     (if s0 < 0x80 then (s0, 1)
      else if s0 < 0xC2 \<or> 0xF4 < s0 then (RuneError, 1)
      else if Suc (length r) < width s0 then (RuneError, 1)
      else if \<not> accept s0 (r ! 0) then (RuneError, 1)
      else if width s0 \<le> 2 then ((s0 mod 32) * 64 + r ! 0 mod 64, 2)
      else if \<not> cont (r ! 1) then (RuneError, 1)
      else if width s0 \<le> 3 then ((s0 mod 16) * 4096 + (r ! 0 mod 64) * 64 + r ! 1 mod 64, 3)
      else if \<not> cont (r ! 2) then (RuneError, 1)
      else ((s0 mod 8) * 262144 + (r ! 0 mod 64) * 4096 + (r ! 1 mod 64) * 64
            + r ! 2 mod 64, 4))"

definition DecodeRuneInString :: "string \<Rightarrow> nat \<times> nat" where
  "DecodeRuneInString s = decode (map of_char (take 4 s))"

text \<open>\<^verbatim>\<open>utf8.RuneStart(b)\<close>: the byte is not a continuation byte.\<close>

definition RuneStart :: "char \<Rightarrow> bool" where
  "RuneStart b = (\<not> (0x80 \<le> (of_char b :: nat) \<and> (of_char b :: nat) < 0xC0))"

text \<open>The backward scan of \<^verbatim>\<open>utf8.DecodeLastRuneInString\<close>:
  \<^verbatim>\<open>for start--; start >= lim; start-- { if RuneStart(s[start]) { break } }\<close>,
  called with \<open>start\<close> already decremented.\<close>

function scan_back :: "string \<Rightarrow> int \<Rightarrow> int \<Rightarrow> int" where
  "scan_back s start lim =
     (if start \<ge> lim
      then (if RuneStart (s ! nat start) then start else scan_back s (start - 1) lim)
      else start)"
  by pat_completeness auto
termination
  by (relation "measure (\<lambda>(s, start, lim). nat (start - lim + 1))") auto

definition DecodeLastRuneInString :: "string \<Rightarrow> nat \<times> nat" where
  "DecodeLastRuneInString s =
     (let end = length s in
      if end = 0 then (RuneError, 0)
      else if (of_char (s ! (end - 1)) :: nat) < RuneSelf then (of_char (s ! (end - 1)), 1)
      else
        let lim = max 0 (int end - int UTFMax);
            start0 = scan_back s (int end - 2) lim;
            start = nat (if start0 < 0 then 0 else start0);
            (r, size) = DecodeRuneInString (drop start s)
        in if start + size \<noteq> end then (RuneError, 1) else (r, size))"

text \<open>\<^verbatim>\<open>unicode.IsSpace\<close>: the Latin-1 spaces, then the White_Space table above
  Latin-1.\<close>

definition IsSpace :: "nat \<Rightarrow> bool" where
  "IsSpace r =
     (if r \<le> 0xFF
      then r = 0x09 \<or> r = 0x0A \<or> r = 0x0B \<or> r = 0x0C \<or> r = 0x0D \<or> r = 0x20
           \<or> r = 0x85 \<or> r = 0xA0
      else r = 0x1680 \<or> (0x2000 \<le> r \<and> r \<le> 0x200A) \<or> r = 0x2028 \<or> r = 0x2029
           \<or> r = 0x202F \<or> r = 0x205F \<or> r = 0x3000)"

lemma width_bounds: "2 \<le> width b \<and> width b \<le> 4"
  by (simp add: width_def)

lemma decode_width_pos: "bs \<noteq> [] \<Longrightarrow> 0 < snd (decode bs)"
  by (cases bs) simp_all

lemma decode_cases:
  "decode (s0 # r) = (RuneError, 1) \<or> (s0 < 0x80 \<and> decode (s0 # r) = (s0, 1)) \<or>
   (0xC2 \<le> s0 \<and> s0 \<le> 0xF4 \<and> snd (decode (s0 # r)) = width s0 \<and> width s0 \<le> Suc (length r)
     \<and> accept s0 (r ! 0) \<and> (2 < width s0 \<longrightarrow> cont (r ! 1)) \<and> (3 < width s0 \<longrightarrow> cont (r ! 2)))"
  using width_bounds[of s0] by (auto simp: Suc_le_eq)

lemma decode_width_le: "snd (decode bs) \<le> length bs"
proof (cases bs)
  case Nil then show ?thesis by simp
next
  case (Cons s0 r)
  show ?thesis unfolding Cons using decode_cases[of s0 r] width_bounds[of s0] by auto
qed

lemma DecodeRuneInString_width_pos: "s \<noteq> [] \<Longrightarrow> 0 < snd (DecodeRuneInString s)"
  unfolding DecodeRuneInString_def by (rule decode_width_pos) (cases s, simp_all)

lemma DecodeRuneInString_width_le: "snd (DecodeRuneInString s) \<le> length s"
proof -
  have "snd (decode (map of_char (take 4 s))) \<le> length (map of_char (take 4 s) :: nat list)"
    by (rule decode_width_le)
  then show ?thesis by (simp add: DecodeRuneInString_def)
qed

declare scan_back.simps [simp del]

lemma scan_back_le: "scan_back s start lim \<le> start"
proof (induction s start lim rule: scan_back.induct)
  case (1 s start lim)
  then show ?case by (subst scan_back.simps) auto
qed

lemma scan_back_ge: "lim - 1 \<le> start \<Longrightarrow> lim - 1 \<le> scan_back s start lim"
proof (induction s start lim rule: scan_back.induct)
  case (1 s start lim)
  then show ?case by (subst scan_back.simps) auto
qed

lemma DecodeLastRuneInString_width_pos: "s \<noteq> [] \<Longrightarrow> 0 < snd (DecodeLastRuneInString s)"
proof -
  assume ne: "s \<noteq> []"
  define st where "st = nat (if scan_back s (int (length s) - 2) (max 0 (int (length s) - int UTFMax)) < 0
      then 0 else scan_back s (int (length s) - 2) (max 0 (int (length s) - int UTFMax)))"
  have "int st \<le> max 0 (int (length s) - 2)"
    using scan_back_le[of s "int (length s) - 2" "max 0 (int (length s) - int UTFMax)"]
    by (auto simp: st_def)
  with ne have "st < length s" by (cases s) auto
  then have "0 < snd (DecodeRuneInString (drop st s))"
    by (intro DecodeRuneInString_width_pos) simp
  then show ?thesis
    using ne by (auto simp: DecodeLastRuneInString_def Let_def st_def[symmetric] split: prod.splits)
qed

lemma DecodeLastRuneInString_width_le: "snd (DecodeLastRuneInString s) \<le> length s"
proof (cases "s = []")
  case True
  then show ?thesis by (simp add: DecodeLastRuneInString_def)
next
  case False
  then have "Suc 0 \<le> length s" by (simp add: Suc_le_eq)
  then show ?thesis
    by (simp add: DecodeLastRuneInString_def Let_def split: prod.splits)
qed

subsection \<open>Trimming (package strings)\<close>

text \<open>\<^verbatim>\<open>indexFunc(s, unicode.IsSpace, false)\<close>: the byte index of the first rune that is
  not a space, or \<open>-1\<close>. The \<^verbatim>\<open>range\<close> loop over a string decodes one rune per step.\<close>

function indexFunc :: "string \<Rightarrow> nat \<Rightarrow> int" where
  "indexFunc s i =
     (if i < length s
      then (if \<not> IsSpace (fst (DecodeRuneInString (drop i s))) then int i
            else indexFunc s (i + snd (DecodeRuneInString (drop i s))))
      else -1)"
  by pat_completeness auto
termination
proof (relation "measure (\<lambda>(s, i). length s - i)")
  show "wf (measure (\<lambda>(s, i). length s - i))" by simp
next
  fix s :: string and i :: nat
  assume "i < length s"
  then have "0 < snd (DecodeRuneInString (drop i s))"
    by (intro DecodeRuneInString_width_pos) simp
  with \<open>i < length s\<close>
  show "((s, i + snd (DecodeRuneInString (drop i s))), (s, i)) \<in> measure (\<lambda>(s, i). length s - i)"
    by simp
qed

text \<open>\<^verbatim>\<open>lastIndexFunc(s, unicode.IsSpace, false)\<close>:
  \<^verbatim>\<open>for i := len(s); i > 0; { r, size := DecodeLastRuneInString(s[0:i]); i -= size;
  if !IsSpace(r) { return i } }; return -1\<close>.\<close>

function lastIndexFunc :: "string \<Rightarrow> nat \<Rightarrow> int" where
  "lastIndexFunc s i =
     (if 0 < i \<and> i \<le> length s
      then (if \<not> IsSpace (fst (DecodeLastRuneInString (take i s)))
            then int (i - snd (DecodeLastRuneInString (take i s)))
            else lastIndexFunc s (i - snd (DecodeLastRuneInString (take i s))))
      else -1)"
  by pat_completeness auto
termination
proof (relation "measure (\<lambda>(s, i). i)")
  show "wf (measure (\<lambda>(s :: string, i :: nat). i))" by simp
next
  fix s :: string and i :: nat
  assume "0 < i \<and> i \<le> length s"
  then have "0 < snd (DecodeLastRuneInString (take i s))"
    by (intro DecodeLastRuneInString_width_pos) auto
  with \<open>0 < i \<and> i \<le> length s\<close>
  show "((s, i - snd (DecodeLastRuneInString (take i s))), (s, i)) \<in> measure (\<lambda>(s, i). i)"
    by simp
qed

declare indexFunc.simps [simp del] lastIndexFunc.simps [simp del]

definition TrimLeftFunc :: "string \<Rightarrow> string" where
  "TrimLeftFunc s = (let i = indexFunc s 0 in if i = -1 then [] else drop (nat i) s)"

definition TrimRightFunc :: "string \<Rightarrow> string" where
  "TrimRightFunc s =
     (let i = lastIndexFunc s (length s) in
      if i \<ge> 0 \<and> (of_char (s ! nat i) :: nat) \<ge> RuneSelf
      then take (nat i + snd (DecodeRuneInString (drop (nat i) s))) s
      else take (nat (i + 1)) s)"

text \<open>\<^verbatim>\<open>strings.TrimSpace(s)\<close> is \<^verbatim>\<open>TrimFunc(s, unicode.IsSpace)\<close>, that is
  \<^verbatim>\<open>TrimRightFunc(TrimLeftFunc(s, f), f)\<close>.\<close>

definition strings_TrimSpace :: "string \<Rightarrow> string" where
  "strings_TrimSpace s = TrimRightFunc (TrimLeftFunc s)"

subsection \<open>Trimming twice is trimming once\<close>

text \<open>The decoder reads a rune from the first bytes of a string only: cutting the string
  gives the same rune or an error, and bytes that follow a complete rune do not change
  it unless they continue it. The backward decoder agrees with the forward one on the
  rune it finds. With this, what \<^verbatim>\<open>TrimSpace\<close> returns begins and ends with a rune that
  is no space (or is empty), and trimming it again changes nothing. This holds for any
  bytes, valid UTF-8 or not.\<close>

lemma IsSpace_RuneError: "\<not> IsSpace RuneError"
  by (simp add: IsSpace_def RuneError_def)

lemma accept_cont: "accept s0 s1 \<Longrightarrow> cont s1"
  by (auto simp: accept_def cont_def split: if_splits)

lemma decode_single: "0x80 \<le> b \<Longrightarrow> decode [b] = (RuneError, 1)"
  using width_bounds[of b] by simp

lemma decode_take:
  assumes "0 < n"
  shows "decode (take n x) = decode x \<or> decode (take n x) = (RuneError, 1)"
proof (cases x)
  case Nil
  then show ?thesis by simp
next
  case (Cons s0 r)
  obtain m where n: "n = Suc m" using assms by (cases n) auto
  have w: "2 \<le> width s0" "width s0 \<le> 4" using width_bounds[of s0] by auto
  show ?thesis
  proof (cases "width s0 \<le> Suc (min m (length r))")
    case True
    then have "take m r ! 0 = r ! 0" "2 < width s0 \<longrightarrow> take m r ! 1 = r ! 1"
      "3 < width s0 \<longrightarrow> take m r ! 2 = r ! 2"
      using w by auto
    then show ?thesis using True w unfolding Cons n
      by (auto simp: min_def split: if_splits)
  next
    case False
    then have "Suc (length (take m r)) < width s0" by simp
    then show ?thesis unfolding Cons n by simp
  qed
qed

lemma decode_extend:
  assumes "snd (decode x) = length x" "x \<noteq> []" "y = [] \<or> \<not> cont (hd y)"
  shows "decode (x @ y) = decode x"
proof (cases x)
  case Nil
  with assms show ?thesis by simp
next
  case (Cons s0 r)
  have w: "2 \<le> width s0" "width s0 \<le> 4" using width_bounds[of s0] by auto
  from decode_cases[of s0 r]
  consider (err) "decode (s0 # r) = (RuneError, 1)" "\<not> s0 < 0x80"
    | (ascii) "s0 < 0x80"
    | (multi) "0xC2 \<le> s0" "s0 \<le> 0xF4" "snd (decode (s0 # r)) = width s0"
    by (cases "s0 < 0x80") auto
  then show ?thesis
  proof cases
    case err
    with assms(1) Cons have r: "r = []" by simp
    show ?thesis
    proof (cases y)
      case Nil
      then show ?thesis by simp
    next
      case (Cons b y')
      with assms(3) have "\<not> cont b" by simp
      then have "\<not> accept s0 b" using accept_cont by blast
      then show ?thesis using err(2) w unfolding \<open>x = s0 # r\<close> r Cons by simp
    qed
  next
    case ascii
    then show ?thesis unfolding Cons by simp
  next
    case multi
    with assms(1) Cons have l: "Suc (length r) = width s0" by simp
    then have "(r @ y) ! 0 = r ! 0" "2 < width s0 \<longrightarrow> (r @ y) ! 1 = r ! 1"
      "3 < width s0 \<longrightarrow> (r @ y) ! 2 = r ! 2"
      using w by (auto simp: nth_append)
    then show ?thesis using l w multi(1,2) unfolding Cons
      by (auto split: if_splits)
  qed
qed

lemma Decode_take:
  assumes "0 < n"
  shows "DecodeRuneInString (take n u) = DecodeRuneInString u
         \<or> DecodeRuneInString (take n u) = (RuneError, 1)"
proof -
  have "map of_char (take 4 (take n u)) = take n (map of_char (take 4 u) :: nat list)"
    by (simp add: take_map min.commute)
  then show ?thesis
    using decode_take[OF assms, of "map of_char (take 4 u)"]
    by (simp add: DecodeRuneInString_def)
qed

lemma Decode_extend:
  assumes "snd (DecodeRuneInString x) = length x" "x \<noteq> []"
    "y = [] \<or> \<not> cont (of_char (hd y))"
  shows "DecodeRuneInString (x @ y) = DecodeRuneInString x"
proof -
  have "snd (DecodeRuneInString x) \<le> length (map of_char (take 4 x) :: nat list)"
    unfolding DecodeRuneInString_def by (rule decode_width_le)
  with assms(1) have l: "length x \<le> 4" by simp
  then have x: "take 4 x = x" by simp
  let ?y = "take (4 - length x) y"
  have xy: "take 4 (x @ y) = x @ ?y" using l by simp
  have "?y = [] \<or> \<not> cont (of_char (hd ?y))"
    using assms(3) by (cases "4 - length x"; cases y) auto
  then have "map of_char ?y = ([] :: nat list) \<or> \<not> cont (hd (map of_char ?y))"
    by (cases ?y) auto
  from decode_extend[of "map of_char x" "map of_char ?y", OF _ _ this] assms(1,2)
  show ?thesis by (simp add: DecodeRuneInString_def x xy)
qed

lemma Decode_cases:
  assumes "s \<noteq> []"
  shows "DecodeRuneInString s = (RuneError, 1)
         \<or> ((of_char (hd s) :: nat) < 0x80 \<and> DecodeRuneInString s = (of_char (hd s), 1))
         \<or> (0xC2 \<le> (of_char (hd s) :: nat) \<and> fst (DecodeRuneInString s) \<noteq> RuneError \<or>
             0xC2 \<le> (of_char (hd s) :: nat) \<and> 1 < snd (DecodeRuneInString s))"
proof -
  obtain c cs where s: "s = c # cs" using assms by (cases s) auto
  obtain r where m: "map of_char (take 4 s) = (of_char c :: nat) # r"
    by (simp add: s)
  from decode_cases[of "of_char c" r] width_bounds[of "of_char c"]
  show ?thesis unfolding DecodeRuneInString_def m by (auto simp: s)
qed

lemma Decode_single:
  "0x80 \<le> (of_char c :: nat) \<Longrightarrow> DecodeRuneInString [c] = (RuneError, 1)"
  using decode_single[of "of_char c"] by (simp add: DecodeRuneInString_def del: decode.simps)

lemma DecodeLast_cases:
  assumes "t \<noteq> []"
  shows "((of_char (last t) :: nat) < 0x80 \<and> DecodeLastRuneInString t = (of_char (last t), 1))
       \<or> (0x80 \<le> (of_char (last t) :: nat) \<and> DecodeLastRuneInString t = (RuneError, 1))
       \<or> (0x80 \<le> (of_char (last t) :: nat)
          \<and> (\<exists>start. start < length t
                \<and> DecodeLastRuneInString t = DecodeRuneInString (drop start t)
                \<and> start + snd (DecodeRuneInString (drop start t)) = length t))"
proof -
  have l: "t ! (length t - 1) = last t" using assms by (simp add: last_conv_nth)
  define st where "st = nat (if scan_back t (int (length t) - 2) (max 0 (int (length t) - int UTFMax)) < 0
      then 0 else scan_back t (int (length t) - 2) (max 0 (int (length t) - int UTFMax)))"
  have "int st \<le> max 0 (int (length t) - 2)"
    using scan_back_le[of t "int (length t) - 2" "max 0 (int (length t) - int UTFMax)"]
    by (auto simp: st_def)
  with assms have st: "st < length t" by (cases t) auto
  show ?thesis
  proof (cases "(of_char (last t) :: nat) < 0x80")
    case True
    then show ?thesis using assms l
      by (simp add: DecodeLastRuneInString_def RuneSelf_def)
  next
    case False
    then have d: "DecodeLastRuneInString t =
        (if st + snd (DecodeRuneInString (drop st t)) \<noteq> length t then (RuneError, 1)
         else DecodeRuneInString (drop st t))"
      using assms l
      by (simp add: DecodeLastRuneInString_def RuneSelf_def Let_def st_def[symmetric]
            split: prod.splits)
    show ?thesis
    proof (cases "st + snd (DecodeRuneInString (drop st t)) \<noteq> length t")
      case True
      with d False show ?thesis by simp
    next
      case eq: False
      with d False st show ?thesis by auto
    qed
  qed
qed

lemma DecodeLast_forward:
  assumes "t \<noteq> []"
    and "0x80 \<le> (of_char (t ! (length t - snd (DecodeLastRuneInString t))) :: nat)"
  shows "snd (DecodeRuneInString (drop (length t - snd (DecodeLastRuneInString t)) t))
           = snd (DecodeLastRuneInString t)"
proof -
  have l: "t ! (length t - 1) = last t" using assms(1) by (simp add: last_conv_nth)
  have d: "drop (length t - Suc 0) t = [last t]"
    using assms(1) by (metis One_nat_def append_butlast_last_id append_eq_conv_conj length_butlast)
  from DecodeLast_cases[OF assms(1)] show ?thesis
  proof (elim disjE conjE exE)
    assume "(of_char (last t) :: nat) < 0x80" "DecodeLastRuneInString t = (of_char (last t), 1)"
    with assms(2) l show ?thesis by simp
  next
    assume "0x80 \<le> (of_char (last t) :: nat)" "DecodeLastRuneInString t = (RuneError, 1)"
    then show ?thesis by (simp add: d Decode_single)
  next
    fix start
    assume "start < length t"
      "DecodeLastRuneInString t = DecodeRuneInString (drop start t)"
      "start + snd (DecodeRuneInString (drop start t)) = length t"
    then show ?thesis by (metis add_diff_cancel_right')
  qed
qed

lemma DecodeLast_space_start:
  assumes "t \<noteq> []" and "IsSpace (fst (DecodeLastRuneInString t))"
  shows "\<not> cont (of_char (t ! (length t - snd (DecodeLastRuneInString t))))"
proof -
  have l: "t ! (length t - 1) = last t" using assms(1) by (simp add: last_conv_nth)
  from DecodeLast_cases[OF assms(1)] show ?thesis
  proof (elim disjE conjE exE)
    assume "(of_char (last t) :: nat) < 0x80" "DecodeLastRuneInString t = (of_char (last t), 1)"
    then show ?thesis using l by (simp add: cont_def)
  next
    assume "DecodeLastRuneInString t = (RuneError, 1)"
    with assms(2) show ?thesis by (simp add: IsSpace_RuneError)
  next
    fix start
    assume s: "start < length t"
      and e: "DecodeLastRuneInString t = DecodeRuneInString (drop start t)"
      and n: "start + snd (DecodeRuneInString (drop start t)) = length t"
    have p: "length t - snd (DecodeLastRuneInString t) = start" using e n by simp
    have h: "hd (drop start t) = t ! start" using s by (simp add: hd_drop_conv_nth)
    have "drop start t \<noteq> []" using s by simp
    from Decode_cases[OF this] assms(2) e
    show ?thesis unfolding p h by (auto simp: cont_def IsSpace_RuneError)
  qed
qed

lemma DecodeLast_ascii_start:
  assumes "t \<noteq> []"
    and "(of_char (t ! (length t - snd (DecodeLastRuneInString t))) :: nat) < 0x80"
  shows "snd (DecodeLastRuneInString t) = 1"
proof -
  from DecodeLast_cases[OF assms(1)] show ?thesis
  proof (elim disjE conjE exE)
    fix start
    assume s: "start < length t"
      and e: "DecodeLastRuneInString t = DecodeRuneInString (drop start t)"
      and n: "start + snd (DecodeRuneInString (drop start t)) = length t"
    have p: "length t - snd (DecodeLastRuneInString t) = start" using e n by simp
    have h: "hd (drop start t) = t ! start" using s by (simp add: hd_drop_conv_nth)
    have "drop start t \<noteq> []" using s by simp
    from Decode_cases[OF this] assms(2) e
    show ?thesis unfolding p h by auto
  qed simp_all
qed

text \<open>A string is trimmed on the left when it is empty or its first rune is no space,
  and trimmed on the right when it is empty or its last rune is no space.\<close>

definition trimmed_left :: "string \<Rightarrow> bool" where
  "trimmed_left s = (s = [] \<or> \<not> IsSpace (fst (DecodeRuneInString s)))"

definition trimmed_right :: "string \<Rightarrow> bool" where
  "trimmed_right s = (s = [] \<or> \<not> IsSpace (fst (DecodeLastRuneInString s)))"

lemma indexFunc_found:
  "i \<le> length s \<Longrightarrow> indexFunc s i = -1
     \<or> (0 \<le> indexFunc s i \<and> nat (indexFunc s i) < length s
        \<and> \<not> IsSpace (fst (DecodeRuneInString (drop (nat (indexFunc s i)) s))))"
proof (induction s i rule: indexFunc.induct)
  case (1 s i)
  show ?case
  proof (cases "i < length s")
    case False
    then show ?thesis by (subst indexFunc.simps) simp
  next
    case True
    show ?thesis
    proof (cases "IsSpace (fst (DecodeRuneInString (drop i s)))")
      case False
      with True show ?thesis by (subst (1 2 3 4) indexFunc.simps) simp
    next
      case sp: True
      have "i + snd (DecodeRuneInString (drop i s)) \<le> length s"
        using DecodeRuneInString_width_le[of "drop i s"] True by simp
      from 1(1)[OF True _ this] sp True show ?thesis
        by (subst (1 2 3 4) indexFunc.simps) simp
    qed
  qed
qed

lemma TrimLeftFunc_trimmed: "trimmed_left (TrimLeftFunc s)"
  using indexFunc_found[of 0 s] by (auto simp: TrimLeftFunc_def trimmed_left_def Let_def)

lemma TrimLeftFunc_fixed: "trimmed_left s \<Longrightarrow> TrimLeftFunc s = s"
  by (cases "s = []")
     (simp_all add: trimmed_left_def TrimLeftFunc_def Let_def indexFunc.simps[of s 0])

lemma trimmed_left_take: "trimmed_left s \<Longrightarrow> trimmed_left (take n s)"
proof (cases "take n s = []")
  case True
  then show ?thesis by (simp add: trimmed_left_def)
next
  case False
  assume t: "trimmed_left s"
  from False have n: "0 < n" and s: "s \<noteq> []" by auto
  from Decode_take[OF n, of s] t s show ?thesis
    by (auto simp: trimmed_left_def IsSpace_RuneError)
qed

lemma TrimRightFunc_fixed:
  assumes "trimmed_right s"
  shows "TrimRightFunc s = s"
proof (cases "s = []")
  case True
  then show ?thesis by (simp add: TrimRightFunc_def Let_def lastIndexFunc.simps[of "[]" 0])
next
  case False
  let ?k = "snd (DecodeLastRuneInString s)"
  let ?i = "lastIndexFunc s (length s)"
  have k: "0 < ?k" "?k \<le> length s"
    using DecodeLastRuneInString_width_pos[OF False] DecodeLastRuneInString_width_le[of s]
    by auto
  have i: "?i = int (length s - ?k)"
    using assms False by (subst lastIndexFunc.simps) (simp add: trimmed_right_def)
  have i0: "0 \<le> ?i" and i1: "nat ?i = length s - ?k" and i2: "nat (?i + 1) = Suc (length s - ?k)"
    unfolding i by simp_all
  show ?thesis
  proof (cases "0x80 \<le> (of_char (s ! (length s - ?k)) :: nat)")
    case True
    from DecodeLast_forward[OF False True] k
    have "length s - ?k + snd (DecodeRuneInString (drop (length s - ?k) s)) = length s"
      by simp
    with True show ?thesis
      by (simp only: TrimRightFunc_def Let_def i0 i1 RuneSelf_def) simp
  next
    case lt: False
    then have "?k = 1" using DecodeLast_ascii_start[OF False] by simp
    with k have "Suc (length s - ?k) = length s" by simp
    with lt show ?thesis
      by (simp only: TrimRightFunc_def Let_def i0 i1 i2 RuneSelf_def) simp
  qed
qed

text \<open>What \<^verbatim>\<open>TrimRightFunc\<close> returns for an index \<open>i\<close> that \<^verbatim>\<open>lastIndexFunc\<close> has found.\<close>

definition cut_after :: "string \<Rightarrow> int \<Rightarrow> string" where
  "cut_after s i =
     (if i \<ge> 0 \<and> (of_char (s ! nat i) :: nat) \<ge> RuneSelf
      then take (nat i + snd (DecodeRuneInString (drop (nat i) s))) s
      else take (nat (i + 1)) s)"

lemma TrimRightFunc_cut: "TrimRightFunc s = cut_after s (lastIndexFunc s (length s))"
  by (simp add: TrimRightFunc_def cut_after_def Let_def)

lemma lastIndexFunc_trimmed:
  "e \<le> length s \<Longrightarrow> e = length s \<or> \<not> cont (of_char (s ! e)) \<Longrightarrow>
     trimmed_right (cut_after s (lastIndexFunc s e))"
proof (induction s e rule: lastIndexFunc.induct)
  case (1 s e)
  show ?case
  proof (cases "0 < e \<and> e \<le> length s")
    case False
    then have "lastIndexFunc s e = -1" by (subst lastIndexFunc.simps) auto
    then show ?thesis by (simp add: cut_after_def trimmed_right_def)
  next
    case True
    let ?t = "take e s"
    let ?k = "snd (DecodeLastRuneInString ?t)"
    have t: "?t \<noteq> []" "length ?t = e" using True by auto
    have k: "0 < ?k" "?k \<le> e"
      using DecodeLastRuneInString_width_pos[OF t(1)] DecodeLastRuneInString_width_le[of ?t] t(2)
      by auto
    have nth: "?t ! (length ?t - ?k) = s ! (e - ?k)" using k t(2) by simp
    show ?thesis
    proof (cases "IsSpace (fst (DecodeLastRuneInString ?t))")
      case sp: True
      have i: "lastIndexFunc s e = lastIndexFunc s (e - ?k)"
        using True sp by (subst lastIndexFunc.simps) simp
      have "\<not> cont (of_char (s ! (e - ?k)))"
        using DecodeLast_space_start[OF t(1) sp] nth by simp
      moreover have "e - ?k \<le> length s" using True by arith
      ultimately show ?thesis using 1(1)[OF True] sp unfolding i by simp
    next
      case ns: False
      let ?i = "lastIndexFunc s e"
      have i: "?i = int (e - ?k)"
        using True ns by (subst lastIndexFunc.simps) simp
      have i0: "0 \<le> ?i" and i1: "nat ?i = e - ?k" and i2: "nat (?i + 1) = Suc (e - ?k)"
        unfolding i by simp_all
      have tr: "trimmed_right ?t" using ns by (simp add: trimmed_right_def)
      show ?thesis
      proof (cases "0x80 \<le> (of_char (s ! (e - ?k)) :: nat)")
        case ge: True
        let ?x = "drop (e - ?k) ?t" and ?y = "drop e s"
        have xy: "drop (e - ?k) s = ?x @ ?y"
          using k by (metis append_take_drop_id diff_le_self drop_append
                length_take min.absorb2 True diff_is_0_eq' drop0)
        have x: "snd (DecodeRuneInString ?x) = length ?x" "?x \<noteq> []"
          using DecodeLast_forward[OF t(1)] ge nth k t(2) by auto
        have y: "?y = [] \<or> \<not> cont (of_char (hd ?y))"
          using 1(3) True by (auto simp: hd_drop_conv_nth)
        have "snd (DecodeRuneInString (drop (e - ?k) s)) = ?k"
          using Decode_extend[OF x y] x(1) k t(2) by (simp add: xy)
        then have "e - ?k + snd (DecodeRuneInString (drop (e - ?k) s)) = e" using k by simp
        with ge tr show ?thesis
          by (simp only: cut_after_def i0 i1 RuneSelf_def) simp
      next
        case lt: False
        then have "?k = 1" using DecodeLast_ascii_start[OF t(1)] nth by simp
        with k have "Suc (e - ?k) = e" by simp
        with lt tr show ?thesis
          by (simp only: cut_after_def i0 i1 i2 RuneSelf_def) simp
      qed
    qed
  qed
qed

lemma TrimRightFunc_trimmed: "trimmed_right (TrimRightFunc s)"
  using lastIndexFunc_trimmed[of "length s" s] by (simp add: TrimRightFunc_cut)

lemma TrimRightFunc_take: "\<exists>n. TrimRightFunc s = take n s"
  by (auto simp: TrimRightFunc_def Let_def)

lemma strings_TrimSpace_idem:
  "strings_TrimSpace (strings_TrimSpace s) = strings_TrimSpace s"
proof -
  let ?u = "TrimLeftFunc s"
  let ?t = "TrimRightFunc ?u"
  obtain n where n: "?t = take n ?u" using TrimRightFunc_take by blast
  have "trimmed_left ?t"
    unfolding n by (rule trimmed_left_take[OF TrimLeftFunc_trimmed])
  then have "TrimLeftFunc ?t = ?t" by (rule TrimLeftFunc_fixed)
  moreover have "TrimRightFunc ?t = ?t"
    by (rule TrimRightFunc_fixed[OF TrimRightFunc_trimmed])
  ultimately show ?thesis by (simp add: strings_TrimSpace_def)
qed

lemma set_strings_TrimSpace: "set (strings_TrimSpace s) \<subseteq> set s"
proof -
  have l: "set (TrimLeftFunc s) \<subseteq> set s" for s
    by (auto simp: TrimLeftFunc_def Let_def dest: in_set_dropD)
  have r: "set (TrimRightFunc s) \<subseteq> set s" for s
    by (auto simp: TrimRightFunc_def Let_def dest: in_set_takeD)
  show ?thesis unfolding strings_TrimSpace_def using l[of s] r[of "TrimLeftFunc s"] by blast
qed

subsection \<open>Paths (package path/filepath)\<close>

text \<open>The tool is written for Windows (it looks for \<^verbatim>\<open>WinMergeU\<close> and reads \<^verbatim>\<open>TEMP\<close>), but
  nothing in it is conditional on the platform; \<^verbatim>\<open>filepath\<close> is, through the separator
  and the volume name. Both variants are modelled.\<close>

datatype goos = Windows | Unix

fun IsPathSeparator :: "goos \<Rightarrow> char \<Rightarrow> bool" where
  "IsPathSeparator Windows c = (c = backslash \<or> c = slash)"
| "IsPathSeparator Unix c = (c = slash)"

fun Separator :: "goos \<Rightarrow> char" where
  "Separator Windows = backslash"
| "Separator Unix = slash"

definition isSlash :: "char \<Rightarrow> bool" where
  "isSlash c = (c = backslash \<or> c = slash)"

definition isLetter :: "char \<Rightarrow> bool" where
  "isLetter c = ((0x61 \<le> (of_char c :: nat) \<and> (of_char c :: nat) \<le> 0x7A)
               \<or> (0x41 \<le> (of_char c :: nat) \<and> (of_char c :: nat) \<le> 0x5A))"

text \<open>\<^verbatim>\<open>volumeNameLen\<close>: \<open>0\<close> except on Windows, where a drive letter with its colon
  counts two bytes and a UNC prefix \<^verbatim>\<open>\\server\share\<close> counts up to the end of the share
  name. \<open>n\<close> is the index of the first slash at or after index 3 and before the last
  byte, as the source's \<^verbatim>\<open>for n := 3; n < l-1; n++\<close> finds it.\<close>

definition volumeNameLen :: "goos \<Rightarrow> string \<Rightarrow> nat" where
  "volumeNameLen os path =
     (case os of
        Unix \<Rightarrow> 0
      | Windows \<Rightarrow>
          if length path < 2 then 0
          else if path ! 1 = CHR '':'' \<and> isLetter (path ! 0) then 2
          else if length path \<ge> 5 \<and> isSlash (path ! 0) \<and> isSlash (path ! 1)
                  \<and> \<not> isSlash (path ! 2) \<and> path ! 2 \<noteq> CHR ''.''
          then
            (let n = 3 + length (takeWhile (\<lambda>c. \<not> isSlash c)
                                   (take (length path - 1 - 3) (drop 3 path)))
             in if n < length path - 1
                then (if \<not> isSlash (path ! (n + 1))
                      then (if path ! (n + 1) = CHR ''.'' then 0
                            else (n + 1) + length (takeWhile (\<lambda>c. \<not> isSlash c)
                                                     (drop (n + 1) path)))
                      else 0)
                else 0)
          else 0)"

text \<open>\<^verbatim>\<open>filepath.Base(path)\<close>: the last element of the path. Trailing separators are
  removed first, then the volume name; the empty path gives \<^verbatim>\<open>"."\<close>, a path of separators
  only gives one separator.\<close>

definition filepath_Base :: "goos \<Rightarrow> string \<Rightarrow> string" where
  "filepath_Base os path =
     (if path = [] then ''.''
      else
        let p1 = rev (dropWhile (IsPathSeparator os) (rev path));
            p2 = drop (volumeNameLen os p1) p1;
            p3 = rev (takeWhile (\<lambda>c. \<not> IsPathSeparator os c) (rev p2))
        in if p3 = [] then [Separator os] else p3)"

section \<open>The status parser\<close>

text \<open>The change kinds are the source's \<^verbatim>\<open>iota\<close> constants, and \<^verbatim>\<open>GitChange.Type\<close> is
  an \<^verbatim>\<open>int\<close>.\<close>

definition Modified :: int where
  "Modified = 0"

definition Added :: int where
  "Added = 1"

definition Deleted :: int where
  "Deleted = 2"

definition NotCheckedIn :: int where
  "NotCheckedIn = 3"

record GitChange =
  Type :: int
  Path :: string
  Name :: string

text \<open>A fatal error of the parser is kept as the message \<^verbatim>\<open>fatalif\<close> prints before
  the process ends: the format and the line it is applied to.\<close>

type_synonym fatal = "string \<times> string"

definition fmt_invalid_line :: string where
  "fmt_invalid_line = ''invalid line: '' @ [CHR 0x27] @ ''%s'' @ [CHR 0x27, newline]"

text \<open>\<^verbatim>\<open>toTrimmedLines\<close> filters the slice in place: at step \<open>k\<close> of the \<^verbatim>\<open>range\<close> loop
  the element \<open>k\<close> is read from the shared array, trimmed, and written back at the write
  index \<open>i\<close> if it is not empty. The result is the first \<open>i\<close> elements.\<close>

fun toTrimmedLines_loop :: "nat list \<Rightarrow> string list \<Rightarrow> nat \<Rightarrow> string list \<times> nat" where
  "toTrimmedLines_loop [] lines i = (lines, i)"
| "toTrimmedLines_loop (k # ks) lines i =
     (let l = strings_TrimSpace (lines ! k) in
      if length l > 0 then toTrimmedLines_loop ks (lines[i := l]) (i + 1)
      else toTrimmedLines_loop ks lines i)"

definition toTrimmedLines :: "string \<Rightarrow> string list" where
  "toTrimmedLines d =
     (let lines = strings_Split d newline;
          (lines', i) = toTrimmedLines_loop [0..<length lines] lines 0
      in take i lines')"

definition parseGitStatusLineMust :: "goos \<Rightarrow> string \<Rightarrow> fatal + GitChange" where
  "parseGitStatusLineMust os s =
     (let parts = strings_SplitN2 s space in
      if length parts \<noteq> 2 then Inl (fmt_invalid_line, s)
      else
        let ty = (if parts ! 0 = ''M'' then Some Modified
                  else if parts ! 0 = ''A'' then Some Added
                  else if parts ! 0 = ''D'' then Some Deleted
                  else if parts ! 0 = ''??'' then Some NotCheckedIn
                  else None)
        in case ty of
             None \<Rightarrow> Inl (fmt_invalid_line, s)
           | Some t \<Rightarrow>
               let p = strings_TrimSpace (parts ! 1)
               in Inr \<lparr>Type = t, Path = p, Name = filepath_Base os p\<rparr>)"

text \<open>The loop of \<^verbatim>\<open>parseGitStatusMust\<close> over the trimmed lines, \<open>res\<close> being the slice
  built so far. A fatal line ends the process: no list is returned.\<close>

fun parseGitStatusMust_loop ::
  "goos \<Rightarrow> bool \<Rightarrow> string list \<Rightarrow> GitChange list \<Rightarrow> fatal + GitChange list" where
  "parseGitStatusMust_loop os includeNotCheckedIn [] res = Inr res"
| "parseGitStatusMust_loop os includeNotCheckedIn (l # ls) res =
     (case parseGitStatusLineMust os l of
        Inl e \<Rightarrow> Inl e
      | Inr c \<Rightarrow>
          if \<not> includeNotCheckedIn \<and> Type c = NotCheckedIn
          then parseGitStatusMust_loop os includeNotCheckedIn ls res
          else parseGitStatusMust_loop os includeNotCheckedIn ls (res @ [c]))"

definition parseGitStatusMust :: "goos \<Rightarrow> string \<Rightarrow> bool \<Rightarrow> fatal + GitChange list" where
  "parseGitStatusMust os out includeNotCheckedIn =
     parseGitStatusMust_loop os includeNotCheckedIn (toTrimmedLines out) []"

section \<open>The process and its environment\<close>

text \<open>
  Everything outside the program is one record, the world: the file system, the working
  directory, the environment variables, the search path, the clock, what a subprocess
  prints, and what the program has printed and run so far. The three package-level
  variables of the source (\<^verbatim>\<open>gitPath\<close>, \<^verbatim>\<open>winMergePath\<close>, \<^verbatim>\<open>tempDir\<close>) are fields too.

  A file is its content, a directory its modification time (nanoseconds). The file
  system maps a resolved path, the list of names from the root down, to the node there;
  the root itself is always a directory. The first entry for a path is the one that
  counts.
\<close>

datatype node = File string | Dir int

type_synonym fpath = "string list"

text \<open>An \<^verbatim>\<open>error\<close> of the operating system or of a subprocess; \<^verbatim>\<open>fataliferr\<close> prints its
  text, which is not modelled further.\<close>

datatype oserror =
    NotExist string | NotDir string | IsDirectory string | NotFound string | ExitError string

datatype parg = PStr string | PInt int | PStrs "string list" | PDuration int
  | PChange GitChange | PError oserror

datatype out = Print string "parg list" | Stack

record world =
  platform :: goos
  fs :: "(fpath \<times> node) list"
  cwd :: string
  environ :: "string \<Rightarrow> string"
  lookPath :: "string \<Rightarrow> string option"
  now :: int
  time_Format :: "int \<Rightarrow> string"
  cmd_Output :: "string \<Rightarrow> string list \<Rightarrow> string option"
  stdout :: "out list"
  cmds :: "(string \<times> string list) list"
  gitPath :: string
  winMergePath :: string
  tempDir :: string

text \<open>A function of the program either returns or ends the process with an exit
  status (\<^verbatim>\<open>os.Exit\<close>); the world it leaves is kept in both cases.\<close>

datatype 'a outcome = Exit int | Ret 'a

type_synonym 'a prog = "world \<Rightarrow> 'a outcome \<times> world"

definition seq :: "'a prog \<Rightarrow> ('a \<Rightarrow> 'b prog) \<Rightarrow> 'b prog" where
  "seq m f w = (case m w of (Exit n, w') \<Rightarrow> (Exit n, w') | (Ret a, w') \<Rightarrow> f a w')"

definition Printf :: "string \<Rightarrow> parg list \<Rightarrow> unit prog" where
  "Printf format args w = (Ret (), w\<lparr>stdout := stdout w @ [Print format args]\<rparr>)"

definition printStack :: "unit prog" where
  "printStack w = (Ret (), w\<lparr>stdout := stdout w @ [Stack]\<rparr>)"

definition os_Exit :: "int \<Rightarrow> 'a prog" where
  "os_Exit n w = (Exit n, w)"

definition fatalf :: "string \<Rightarrow> parg list \<Rightarrow> 'a prog" where
  "fatalf format args = seq (Printf format args) (\<lambda>_. seq printStack (\<lambda>_. os_Exit 1))"

definition fatalif :: "bool \<Rightarrow> string \<Rightarrow> parg list \<Rightarrow> unit prog" where
  "fatalif cond format args =
     (if cond then seq (Printf format args) (\<lambda>_. seq printStack (\<lambda>_. os_Exit 1))
      else (\<lambda>w. (Ret (), w)))"

definition fataliferr :: "oserror option \<Rightarrow> unit prog" where
  "fataliferr err =
     (case err of
        None \<Rightarrow> (\<lambda>w. (Ret (), w))
      | Some e \<Rightarrow> fatalf (''%s'' @ [newline]) [PError e])"

subsection \<open>Paths and the file system\<close>

text \<open>The pieces of a string between the bytes that satisfy \<open>P\<close>.\<close>

fun pieces :: "(char \<Rightarrow> bool) \<Rightarrow> string \<Rightarrow> string list" where
  "pieces P [] = [[]]"
| "pieces P (c # cs) =
     (let r = pieces P cs in if P c then [] # r else (c # hd r) # tl r)"

text \<open>Path resolution, lexically: a path is cut at its separators; an empty name and
  \<^verbatim>\<open>.\<close> are skipped and \<^verbatim>\<open>..\<close> goes up one level. A path that starts with a separator or,
  on Windows, with a drive letter and a colon is resolved from the root (the drive is the
  first name), any other path from the working directory. Links, upper and lower case
  and the current directories of other drives are not modelled.\<close>

definition enter :: "fpath \<Rightarrow> string \<Rightarrow> fpath" where
  "enter k c = (if c = [] \<or> c = ''.'' then k else if c = ''..'' then butlast k else k @ [c])"

definition rooted :: "goos \<Rightarrow> string \<Rightarrow> bool" where
  "rooted os p =
     ((p \<noteq> [] \<and> IsPathSeparator os (hd p))
      \<or> (os = Windows \<and> length p \<ge> 2 \<and> p ! 1 = CHR '':'' \<and> isLetter (p ! 0)))"

definition resolve :: "world \<Rightarrow> string \<Rightarrow> fpath" where
  "resolve w p =
     foldl enter []
       ((if rooted (platform w) p then [] else pieces (IsPathSeparator (platform w)) (cwd w))
        @ pieces (IsPathSeparator (platform w)) p)"

text \<open>\<^verbatim>\<open>filepath.Join\<close> of two elements: empty elements are ignored, the others joined
  with the separator. The \<^verbatim>\<open>filepath.Clean\<close> that Go applies to the result rewrites a
  path into a shorter one that resolves to the same file; since files are looked up by
  resolved path, it is left out.\<close>

definition filepath_Join :: "goos \<Rightarrow> string \<Rightarrow> string \<Rightarrow> string" where
  "filepath_Join os a b =
     (if a = [] then b else if b = [] then a else a @ Separator os # b)"

definition lookup :: "world \<Rightarrow> fpath \<Rightarrow> node option" where
  "lookup w k = map_of (fs w) k"

definition isDir :: "world \<Rightarrow> fpath \<Rightarrow> bool" where
  "isDir w k = (k = [] \<or> (case lookup w k of Some (Dir t) \<Rightarrow> True | _ \<Rightarrow> False))"

definition isFile :: "world \<Rightarrow> fpath \<Rightarrow> bool" where
  "isFile w k = (k \<noteq> [] \<and> (case lookup w k of Some (File c) \<Rightarrow> True | _ \<Rightarrow> False))"

definition put :: "fpath \<Rightarrow> node \<Rightarrow> world \<Rightarrow> world" where
  "put k v w = w\<lparr>fs := AList.update k v (fs w)\<rparr>"

text \<open>\<^verbatim>\<open>os.MkdirAll\<close>: every missing directory on the way is created, with the current
  time; a file on the way is an error.\<close>

fun mkdirs :: "fpath list \<Rightarrow> world \<Rightarrow> oserror option \<times> world" where
  "mkdirs [] w = (None, w)"
| "mkdirs (k # ks) w =
     (if isFile w k then (Some (NotDir (last k)), w)
      else if isDir w k then mkdirs ks w
      else mkdirs ks (put k (Dir (now w)) w))"

definition os_MkdirAll :: "string \<Rightarrow> world \<Rightarrow> oserror option \<times> world" where
  "os_MkdirAll path w =
     (let k = resolve w path in mkdirs (map (\<lambda>n. take n k) [1..<Suc (length k)]) w)"

text \<open>\<^verbatim>\<open>os.Create\<close>: the file is created or truncated; the directory it is in has to exist
  and the path must not be a directory. The open file is its resolved path.\<close>

definition os_Create :: "string \<Rightarrow> world \<Rightarrow> (oserror + fpath) \<times> world" where
  "os_Create path w =
     (let k = resolve w path in
      if isDir w k then (Inl (IsDirectory path), w)
      else if \<not> isDir w (butlast k) then (Inl (NotExist path), w)
      else (Inr k, put k (File []) w))"

text \<open>\<^verbatim>\<open>os.Open\<close>, for reading a file.\<close>

definition os_Open :: "string \<Rightarrow> world \<Rightarrow> (oserror + fpath) \<times> world" where
  "os_Open path w =
     (let k = resolve w path in
      if isFile w k then (Inr k, w) else (Inl (NotExist path), w))"

text \<open>\<^verbatim>\<open>f.Write(d)\<close> on a file just created: the bytes are appended.\<close>

definition file_Write :: "fpath \<Rightarrow> string \<Rightarrow> world \<Rightarrow> oserror option \<times> world" where
  "file_Write f d w =
     (case lookup w f of
        Some (File c) \<Rightarrow> (None, put f (File (c @ d)) w)
      | _ \<Rightarrow> (Some (NotExist (last f)), w))"

text \<open>\<^verbatim>\<open>io.Copy(dst, src)\<close>: what the source holds when it is read is written to the
  destination.\<close>

definition io_Copy :: "fpath \<Rightarrow> fpath \<Rightarrow> world \<Rightarrow> oserror option \<times> world" where
  "io_Copy dst src w =
     (case lookup w src of
        Some (File c) \<Rightarrow> file_Write dst c w
      | _ \<Rightarrow> (Some (NotExist (last src)), w))"

text \<open>\<^verbatim>\<open>ioutil.ReadDir\<close>: the entries of a directory, sorted by name. Of a
  \<^verbatim>\<open>os.FileInfo\<close> the tool reads the name, whether it is a directory and, for a directory,
  the modification time.\<close>

record FileInfo =
  fi_Name :: string
  fi_IsDir :: bool
  fi_ModTime :: int

definition info :: "world \<Rightarrow> fpath \<Rightarrow> string \<Rightarrow> FileInfo" where
  "info w k name =
     (case lookup w (k @ [name]) of
        Some (Dir t) \<Rightarrow> \<lparr>fi_Name = name, fi_IsDir = True, fi_ModTime = t\<rparr>
      | _ \<Rightarrow> \<lparr>fi_Name = name, fi_IsDir = False, fi_ModTime = 0\<rparr>)"

definition entries :: "world \<Rightarrow> fpath \<Rightarrow> string list" where
  "entries w k =
     sort (remdups (map (\<lambda>(p, n). last p) (filter (\<lambda>(p, n). p \<noteq> [] \<and> butlast p = k) (fs w))))"

definition ioutil_ReadDir :: "string \<Rightarrow> world \<Rightarrow> (oserror + FileInfo list) \<times> world" where
  "ioutil_ReadDir dirname w =
     (let k = resolve w dirname in
      if isDir w k then (Inr (map (info w k) (entries w k)), w)
      else (Inl (NotDir dirname), w))"

text \<open>\<^verbatim>\<open>os.RemoveAll\<close>: the path and everything below it is removed; a path that does not
  exist is no error. Errors of permission or of files in use are not modelled.\<close>

definition os_RemoveAll :: "string \<Rightarrow> world \<Rightarrow> oserror option \<times> world" where
  "os_RemoveAll path w =
     (let k = resolve w path in
      (None, w\<lparr>fs := filter (\<lambda>(p, n). \<not> prefix k p) (fs w)\<rparr>))"

text \<open>\<^verbatim>\<open>runCmd\<close>: the command line is printed, the subprocess runs and its standard
  output (or its failure) comes back. The subprocesses of this tool (\<^verbatim>\<open>git status\<close>,
  \<^verbatim>\<open>git show\<close>, the viewer) are taken not to change the files the tool reads or writes.\<close>

definition fmt_running :: string where
  "fmt_running = ''running: %s %v'' @ [newline]"

definition runCmd :: "string \<Rightarrow> string list \<Rightarrow> world \<Rightarrow> (oserror + string) \<times> world" where
  "runCmd exePath args w =
     (let w1 = snd (Printf fmt_running [PStr (filepath_Base (platform w) exePath), PStrs args] w);
          w2 = w1\<lparr>cmds := cmds w1 @ [(exePath, args)]\<rparr>
      in case cmd_Output w exePath args of
           None \<Rightarrow> (Inl (ExitError exePath), w2)
         | Some out \<Rightarrow> (Inr out, w2))"

section \<open>The tool\<close>

text \<open>The functions of \<^verbatim>\<open>tools/diff-preview.go\<close>, in the order of the source.
  \<open>fataliferr_val\<close> is \<^verbatim>\<open>fataliferr(err)\<close> after a call that returns a value and an error:
  the value is passed on when there is no error.\<close>

definition fataliferr_val :: "(oserror + 'a) \<times> world \<Rightarrow> 'a outcome \<times> world" where
  "fataliferr_val r =
     (case r of
        (Inl e, w) \<Rightarrow> fatalf (''%s'' @ [newline]) [PError e] w
      | (Inr a, w) \<Rightarrow> (Ret a, w))"

definition fmt_is :: string where
  "fmt_is = [CHR 0x27] @ ''%s'' @ [CHR 0x27] @ '' is '' @ [CHR 0x27] @ ''%s'' @ [CHR 0x27, newline]"

definition fmt_not_found :: string where
  "fmt_not_found = ''Couldn'' @ [CHR 0x27] @ ''t find '' @ [CHR 0x27] @ ''%s'' @ [CHR 0x27, newline]"

definition detectExeMust :: "string \<Rightarrow> string prog" where
  "detectExeMust name w =
     (case lookPath w name of
        Some path \<Rightarrow> seq (Printf fmt_is [PStr name, PStr path]) (\<lambda>_ w'. (Ret path, w')) w
      | None \<Rightarrow>
          seq (Printf fmt_not_found [PStr name])
            (\<lambda>_. seq (fataliferr (Some (NotFound name))) (\<lambda>_ w'. (Ret [], w'))) w)"

definition detectExesMust :: "unit prog" where
  "detectExesMust =
     seq (detectExeMust ''git'') (\<lambda>p w. seq (detectExeMust ''WinMergeU'')
       (\<lambda>q w'. (Ret (), w'\<lparr>winMergePath := q\<rparr>)) (w\<lparr>gitPath := p\<rparr>))"

definition getWinTempDirMust :: "string prog" where
  "getWinTempDirMust w =
     (if environ w ''TEMP'' \<noteq> [] then (Ret (environ w ''TEMP''), w)
      else seq (fatalif (environ w ''TMP'' = [])
                  (''env variable TEMP and TMP are not set'' @ [newline]) [])
             (\<lambda>_ w'. (Ret (environ w ''TMP''), w')) w)"

definition createTempDirMust :: "unit prog" where
  "createTempDirMust =
     seq getWinTempDirMust (\<lambda>dir w.
       let w1 = w\<lparr>tempDir := filepath_Join (platform w) dir ''sum-diff-preview''\<rparr>;
           (err, w2) = os_MkdirAll (tempDir w1) w1
       in fataliferr err w2)"

definition gitStatusMust :: "GitChange list prog" where
  "gitStatusMust w =
     seq (\<lambda>w. fataliferr_val (runCmd (gitPath w) [''status'', ''--porcelain''] w))
       (\<lambda>out w'. case parseGitStatusMust (platform w') out False of
                    Inl (format, line) \<Rightarrow> fatalf format [PStr line] w'
                  | Inr res \<Rightarrow> (Ret res, w')) w"

definition gitGetFileContentHeadMust :: "string \<Rightarrow> string prog" where
  "gitGetFileContentHeadMust path w =
     fataliferr_val (runCmd (gitPath w) [''show'', ''HEAD:'' @ path] w)"

text \<open>\<^verbatim>\<open>time.Hour * 24\<close> in nanoseconds, and \<^verbatim>\<open>t.Sub(u)\<close>, which saturates at the ends of
  the 64-bit \<^verbatim>\<open>Duration\<close>.\<close>

definition day :: int where
  "day = 24 * 3600 * 1000000000"

definition time_Sub :: "int \<Rightarrow> int \<Rightarrow> int" where
  "time_Sub t u = max (- (2 ^ 63)) (min (2 ^ 63 - 1) (t - u))"

definition fmt_deleting :: string where
  "fmt_deleting = ''Deleting %s because older than 1 day'' @ [newline]"

definition fmt_not_deleting :: string where
  "fmt_not_deleting = ''Not deleting %s because younger than 1 day (%s)'' @ [newline]"

fun deleteOldDirs_loop :: "FileInfo list \<Rightarrow> unit prog" where
  "deleteOldDirs_loop [] w = (Ret (), w)"
| "deleteOldDirs_loop (fi # files) w =
     (if \<not> fi_IsDir fi then deleteOldDirs_loop files w
      else
        let age = time_Sub (now w) (fi_ModTime fi);
            path = filepath_Join (platform w) (tempDir w) (fi_Name fi)
        in if age > day
           then seq (Printf fmt_deleting [PStr path])
                  (\<lambda>_ w1. let (err, w2) = os_RemoveAll path w1
                           in seq (fataliferr err) (\<lambda>_. deleteOldDirs_loop files) w2) w
           else seq (Printf fmt_not_deleting [PStr path, PDuration age])
                  (\<lambda>_. deleteOldDirs_loop files) w)"

definition deleteOldDirs :: "unit prog" where
  "deleteOldDirs w =
     seq (\<lambda>w. fataliferr_val (ioutil_ReadDir (tempDir w) w)) deleteOldDirs_loop w"

definition getBeforeAfterDirs :: "goos \<Rightarrow> string \<Rightarrow> string \<times> string" where
  "getBeforeAfterDirs os dir = (filepath_Join os dir ''before'', filepath_Join os dir ''after'')"

definition runWinMerge :: "string \<Rightarrow> unit prog" where
  "runWinMerge dir w =
     (let (dirBefore, dirAfter) = getBeforeAfterDirs (platform w) dir
      in seq (\<lambda>w. fataliferr_val
                     (runCmd (winMergePath w) [''/u'', ''/wl'', ''/wr'', dirBefore, dirAfter] w))
           (\<lambda>_ w'. (Ret (), w')) w)"

definition fmt_cat :: string where
  "fmt_cat = ''catGitHeadToFileMust: %s => %s'' @ [newline]"

definition catGitHeadToFileMust :: "string \<Rightarrow> string \<Rightarrow> unit prog" where
  "catGitHeadToFileMust dst gitPath' =
     seq (Printf fmt_cat [PStr gitPath', PStr dst])
       (\<lambda>_. seq (gitGetFileContentHeadMust gitPath')
         (\<lambda>d. seq (\<lambda>w. fataliferr_val (os_Create dst w))
           (\<lambda>f w. let (err, w') = file_Write f d w in fataliferr err w')))"

definition createEmptyFileMust :: "string \<Rightarrow> unit prog" where
  "createEmptyFileMust path =
     seq (\<lambda>w. fataliferr_val (os_Create path w)) (\<lambda>f w. (Ret (), w))"

definition copyFileMust :: "string \<Rightarrow> string \<Rightarrow> unit prog" where
  "copyFileMust dst src =
     seq (\<lambda>w. fataliferr_val (os_Create (strings_Replace dst slash backslash) w))
       (\<lambda>fdst. seq (\<lambda>w. fataliferr_val (os_Open (strings_Replace src slash backslash) w))
         (\<lambda>fsrc w. let (err, w') = io_Copy fdst fsrc w in fataliferr err w'))"

definition copyFileAddedMust :: "string \<Rightarrow> string \<Rightarrow> GitChange \<Rightarrow> unit prog" where
  "copyFileAddedMust dirBefore dirAfter change w =
     seq (createEmptyFileMust (filepath_Join (platform w) dirBefore (Name change)))
       (\<lambda>_. copyFileMust (filepath_Join (platform w) dirAfter (Name change)) (Path change)) w"

definition copyFileDeletedMust :: "string \<Rightarrow> string \<Rightarrow> GitChange \<Rightarrow> unit prog" where
  "copyFileDeletedMust dirBefore dirAfter change w =
     seq (createEmptyFileMust (filepath_Join (platform w) dirAfter (Name change)))
       (\<lambda>_. catGitHeadToFileMust (filepath_Join (platform w) dirBefore (Name change))
               (Path change)) w"

definition copyFileModifiedMust :: "string \<Rightarrow> string \<Rightarrow> GitChange \<Rightarrow> unit prog" where
  "copyFileModifiedMust dirBefore dirAfter change w =
     seq (copyFileMust (filepath_Join (platform w) dirAfter (Name change)) (Path change))
       (\<lambda>_. catGitHeadToFileMust (filepath_Join (platform w) dirBefore (Name change))
               (Path change)) w"

definition fmt_unknown_change :: string where
  "fmt_unknown_change = ''unknown change %+v'' @ [newline]"

text \<open>The \<^verbatim>\<open>switch\<close> of \<^verbatim>\<open>copyFileChangeMust\<close>: \<^verbatim>\<open>case Deleted\<close> calls
  \<^verbatim>\<open>copyFileModifiedMust\<close>, as the source has it; \<^verbatim>\<open>copyFileDeletedMust\<close> has no caller.\<close>

definition copyFileChangeMust :: "string \<Rightarrow> GitChange \<Rightarrow> unit prog" where
  "copyFileChangeMust dir change w =
     (let (dirBefore, dirAfter) = getBeforeAfterDirs (platform w) dir
      in if Type change = Added then copyFileAddedMust dirBefore dirAfter change w
         else if Type change = Modified then copyFileModifiedMust dirBefore dirAfter change w
         else if Type change = Deleted then copyFileModifiedMust dirBefore dirAfter change w
         else fatalif True fmt_unknown_change [PChange change] w)"

fun copyFiles_loop :: "string \<Rightarrow> GitChange list \<Rightarrow> unit prog" where
  "copyFiles_loop dir [] w = (Ret (), w)"
| "copyFiles_loop dir (change # changes) w =
     seq (copyFileChangeMust dir change) (\<lambda>_. copyFiles_loop dir changes) w"

definition copyFiles :: "string \<Rightarrow> GitChange list \<Rightarrow> unit prog" where
  "copyFiles dir changes w =
     (let (dirBefore, dirAfter) = getBeforeAfterDirs (platform w) dir
      in seq (\<lambda>w. let (err, w') = os_MkdirAll dirBefore w in fataliferr err w')
           (\<lambda>_. seq (\<lambda>w. let (err, w') = os_MkdirAll dirAfter w in fataliferr err w')
             (\<lambda>_. copyFiles_loop dir changes)) w)"

text \<open>\<^verbatim>\<open>strings.ToLower\<close> on the letters A to Z; other bytes are kept.\<close>

definition strings_ToLower :: "string \<Rightarrow> string" where
  "strings_ToLower s =
     map (\<lambda>c. if 0x41 \<le> (of_char c :: nat) \<and> (of_char c :: nat) \<le> 0x5A
               then char_of ((of_char c :: nat) + 32) else c) s"

fun hasGitDirMust_loop :: "FileInfo list \<Rightarrow> bool" where
  "hasGitDirMust_loop [] = False"
| "hasGitDirMust_loop (fi # files) =
     (if strings_ToLower (fi_Name fi) = ''.git'' then fi_IsDir fi else hasGitDirMust_loop files)"

definition hasGitDirMust :: "string \<Rightarrow> bool prog" where
  "hasGitDirMust dir =
     seq (\<lambda>w. fataliferr_val (ioutil_ReadDir dir w)) (\<lambda>files w. (Ret (hasGitDirMust_loop files), w))"

text \<open>\<^verbatim>\<open>filepath.Dir\<close>: the path up to its last separator, cleaned, after the volume name.
  Of \<^verbatim>\<open>filepath.Clean\<close> only what applies to a clean path followed by separators is
  modelled (\<^verbatim>\<open>os.Getwd\<close> returns a clean path): the trailing separators go, the root
  stays, the empty path becomes \<^verbatim>\<open>.\<close>.\<close>

definition filepath_Dir :: "goos \<Rightarrow> string \<Rightarrow> string" where
  "filepath_Dir os path =
     (let vol = take (volumeNameLen os path) path;
          d = rev (dropWhile (\<lambda>c. \<not> IsPathSeparator os c) (rev (drop (volumeNameLen os path) path)));
          t = rev (dropWhile (IsPathSeparator os) (rev d))
      in vol @ (if d = [] then ''.'' else if t = [] then [Separator os] else t))"

definition fmt_dir_eq :: string where
  "fmt_dir_eq = ''dir == newDir (%s == %s)''"

text \<open>The loop of \<^verbatim>\<open>cdToGitRoot\<close> walks up until a directory has a \<^verbatim>\<open>.git\<close> directory. It
  returns the last value of \<^verbatim>\<open>newDir\<close>. Nothing in the source bounds it, so it is a partial
  function: \<open>None\<close> is a loop that does not end.\<close>

partial_function (option) cdToGitRoot_loop ::
  "string \<Rightarrow> string \<Rightarrow> world \<Rightarrow> (string outcome \<times> world) option" where
  "cdToGitRoot_loop dir newDir w =
     (case hasGitDirMust dir w of
        (Exit n, w1) \<Rightarrow> Some (Exit n, w1)
      | (Ret found, w1) \<Rightarrow>
          if found then Some (Ret newDir, w1)
          else if dir = filepath_Dir (platform w1) dir
          then Some (fatalf fmt_dir_eq [PStr dir, PStr (filepath_Dir (platform w1) dir)] w1)
          else cdToGitRoot_loop (filepath_Dir (platform w1) dir)
                 (filepath_Dir (platform w1) dir) w1)"

declare cdToGitRoot_loop.simps [code]

definition fmt_changed_dir :: string where
  "fmt_changed_dir = ''Changed current dir to: '' @ [CHR 0x27] @ ''%s'' @ [CHR 0x27, newline]"

definition os_Chdir :: "string \<Rightarrow> world \<Rightarrow> world" where
  "os_Chdir dir w = (if isDir w (resolve w dir) then w\<lparr>cwd := dir\<rparr> else w)"

definition cdToGitRoot :: "world \<Rightarrow> (unit outcome \<times> world) option" where
  "cdToGitRoot w =
     (case cdToGitRoot_loop (cwd w) [] w of
        None \<Rightarrow> None
      | Some (Exit n, w1) \<Rightarrow> Some (Exit n, w1)
      | Some (Ret newDir, w1) \<Rightarrow>
          if newDir \<noteq> []
          then Some (seq (Printf fmt_changed_dir [PStr newDir])
                       (\<lambda>_ w2. (Ret (), os_Chdir newDir w2)) w1)
          else Some (Ret (), w1))"

definition fmt_temp_dir :: string where
  "fmt_temp_dir = ''temp dir: %s'' @ [newline]"

definition fmt_changes :: string where
  "fmt_changes = ''%d change(s)'' @ [newline]"

text \<open>\<^verbatim>\<open>main\<close>, in three parts: up to the sweep, the walk to the repository root, and
  from the status query on. The result is the exit status of the process and the world
  it leaves; returning from \<^verbatim>\<open>main\<close> is status \<open>0\<close>.\<close>

definition main_start :: "unit prog" where
  "main_start =
     seq detectExesMust (\<lambda>_. seq createTempDirMust
       (\<lambda>_. seq (\<lambda>w. Printf fmt_temp_dir [PStr (tempDir w)] w) (\<lambda>_. deleteOldDirs)))"

definition main_changes :: "GitChange list \<Rightarrow> unit prog" where
  "main_changes changes =
     (if length changes = 0
      then seq (Printf ''No changes to preview!'' []) (\<lambda>_. os_Exit 0)
      else seq (Printf fmt_changes [PInt (int (length changes))])
             (\<lambda>_ w. let subDir = time_Format w (now w);
                         dir = filepath_Join (platform w) (tempDir w) subDir;
                         (err, w1) = os_MkdirAll dir w
                     in seq (fataliferr err)
                          (\<lambda>_. seq (copyFiles dir changes) (\<lambda>_. runWinMerge dir)) w1))"

definition status_of :: "unit outcome \<times> world \<Rightarrow> int \<times> world" where
  "status_of r = (case r of (Exit n, w) \<Rightarrow> (n, w) | (Ret _, w) \<Rightarrow> (0, w))"

definition main :: "world \<Rightarrow> (int \<times> world) option" where
  "main w =
     (case main_start w of
        (Exit n, w1) \<Rightarrow> Some (n, w1)
      | (Ret _, w1) \<Rightarrow>
          (case cdToGitRoot w1 of
             None \<Rightarrow> None
           | Some (Exit n, w2) \<Rightarrow> Some (n, w2)
           | Some (Ret _, w2) \<Rightarrow> Some (status_of (seq gitStatusMust main_changes w2))))"

section \<open>Properties of the status parser\<close>

lemma strings_SplitN2_cut:
  "sep \<notin> set a \<Longrightarrow> strings_SplitN2 (a @ sep # b) sep = [a, b]"
proof -
  assume a: "sep \<notin> set a"
  then have "takeWhile (\<lambda>c. c \<noteq> sep) (a @ sep # b) = a"
    by (subst takeWhile_append2) auto
  moreover from a have "dropWhile (\<lambda>c. c \<noteq> sep) (a @ sep # b) = sep # b"
    by (subst dropWhile_append2) auto
  ultimately show ?thesis by (simp add: strings_SplitN2_def)
qed

lemma strings_SplitN2_none:
  "sep \<notin> set s \<Longrightarrow> strings_SplitN2 s sep = [s]"
  by (simp add: strings_SplitN2_def)

lemma filepath_Base_plain:
  assumes "p \<noteq> []" "\<forall>x\<in>set p. \<not> IsPathSeparator os x" "volumeNameLen os p = 0"
  shows "filepath_Base os p = p"
proof -
  have 1: "dropWhile (IsPathSeparator os) (rev p) = rev p"
    using assms(1,2) by (cases "rev p") auto
  have 2: "takeWhile (\<lambda>c. \<not> IsPathSeparator os c) (rev p) = rev p"
    using assms(2) by simp
  show ?thesis using assms(1,3) by (simp add: filepath_Base_def Let_def 1 2)
qed

lemma filepath_Base_last:
  assumes "IsPathSeparator os sep" "name \<noteq> []" "\<forall>x\<in>set name. \<not> IsPathSeparator os x"
    "volumeNameLen os (dir @ sep # name) \<le> Suc (length dir)"
  shows "filepath_Base os (dir @ sep # name) = name"
proof -
  let ?p = "dir @ sep # name"
  let ?k = "volumeNameLen os ?p"
  have 1: "dropWhile (IsPathSeparator os) (rev ?p) = rev ?p"
    using assms(2,3) by (cases "rev name") auto
  have "drop ?k ((dir @ [sep]) @ name) = drop ?k (dir @ [sep]) @ name"
    using assms(4) by (subst drop_append) simp
  then have k: "drop ?k ?p = drop ?k (dir @ [sep]) @ name" by simp
  have 2: "takeWhile (\<lambda>c. \<not> IsPathSeparator os c) (rev (drop ?k (dir @ [sep]) @ name)) = rev name"
  proof (cases "?k \<le> length dir")
    case True
    then have "drop ?k (dir @ [sep]) = drop ?k dir @ [sep]" by simp
    then have "rev (drop ?k (dir @ [sep]) @ name) = rev name @ sep # rev (drop ?k dir)" by simp
    then show ?thesis using assms(1,3) by (simp add: takeWhile_tail)
  next
    case False
    with assms(4) have "drop ?k (dir @ [sep]) = []" by simp
    then show ?thesis using assms(3) by simp
  qed
  have p1: "rev (dropWhile (IsPathSeparator os) (rev ?p)) = ?p" using 1 by simp
  have "filepath_Base os ?p = (if rev (rev name) = [] then [Separator os] else rev (rev name))"
    by (simp only: filepath_Base_def Let_def p1 k 2) simp
  then show ?thesis using assms(2) by simp
qed


lemma toTrimmedLines_loop_take:
  assumes "k \<le> n" "n = length lines" "i \<le> k"
    "toTrimmedLines_loop [k..<n] lines i = (lines', i')"
  shows "take i' lines' =
           take i lines @ filter (\<lambda>l. l \<noteq> []) (map strings_TrimSpace (drop k lines))"
  using assms
proof (induction "n - k" arbitrary: k lines i)
  case 0
  then show ?case by simp
next
  case (Suc m)
  then have kn: "k < n" by simp
  then have upt: "[k..<n] = k # [Suc k..<n]" by (simp add: upt_conv_Cons)
  have dk: "drop k lines = lines ! k # drop (Suc k) lines"
    using kn Suc.prems(2) by (simp add: Cons_nth_drop_Suc)
  have m: "m = n - Suc k" using Suc.hyps(2) by simp
  show ?case
  proof (cases "strings_TrimSpace (lines ! k) = []")
    case True
    with Suc.prems(4) have "toTrimmedLines_loop [Suc k..<n] lines i = (lines', i')"
      by (simp add: upt)
    from Suc.hyps(1)[OF m _ Suc.prems(2) _ this] kn Suc.prems(3)
    have "take i' lines' =
            take i lines @ filter (\<lambda>l. l \<noteq> []) (map strings_TrimSpace (drop (Suc k) lines))"
      by simp
    then show ?thesis using True by (simp add: dk)
  next
    case False
    let ?l = "strings_TrimSpace (lines ! k)"
    from False Suc.prems(4)
    have "toTrimmedLines_loop [Suc k..<n] (lines[i := ?l]) (Suc i) = (lines', i')"
      by (simp add: upt Let_def)
    from Suc.hyps(1)[OF m _ _ _ this] kn Suc.prems(2,3)
    have "take i' lines' = take (Suc i) (lines[i := ?l])
            @ filter (\<lambda>l. l \<noteq> []) (map strings_TrimSpace (drop (Suc k) (lines[i := ?l])))"
      by simp
    moreover have "take (Suc i) (lines[i := ?l]) = take i lines @ [?l]"
      using kn Suc.prems(2,3) by (simp add: take_Suc_conv_app_nth)
    moreover have "drop (Suc k) (lines[i := ?l]) = drop (Suc k) lines"
      using Suc.prems(3) by simp
    ultimately show ?thesis using False by (simp add: dk)
  qed
qed

lemma toTrimmedLines_eq:
  "toTrimmedLines d =
     filter (\<lambda>l. l \<noteq> []) (map strings_TrimSpace (strings_Split d newline))"
proof -
  obtain lines' i' where
    r: "toTrimmedLines_loop [0..<length (strings_Split d newline)] (strings_Split d newline) 0
          = (lines', i')"
    by (cases "toTrimmedLines_loop [0..<length (strings_Split d newline)]
                 (strings_Split d newline) 0") auto
  from toTrimmedLines_loop_take[OF _ _ _ r] show ?thesis
    by (simp add: toTrimmedLines_def r)
qed

lemma toTrimmedLines_Nil: "toTrimmedLines [] = []"
  by code_simp

lemma parseGitStatusMust_Nil: "parseGitStatusMust os [] includeNotCheckedIn = Inr []"
  by (simp add: parseGitStatusMust_def toTrimmedLines_Nil)

lemma strings_Split_nonempty: "strings_Split s sep \<noteq> []"
  by (induction s) (auto simp: Let_def)

lemma strings_Split_append:
  "strings_Split (a @ sep # b) sep = strings_Split a sep @ strings_Split b sep"
proof (induction a)
  case Nil
  then show ?case by (simp add: Let_def)
next
  case (Cons c a)
  then show ?case using strings_Split_nonempty[of a sep]
    by (cases "strings_Split a sep") (auto simp: Let_def)
qed

lemma strings_Split_none: "sep \<notin> set l \<Longrightarrow> strings_Split l sep = [l]"
  by (induction l) (auto simp: Let_def)

lemma strings_Split_free: "l \<in> set (strings_Split s sep) \<Longrightarrow> sep \<notin> set l"
proof (induction s arbitrary: l)
  case Nil
  then show ?case by simp
next
  case (Cons c s)
  obtain r rs where r: "strings_Split s sep = r # rs"
    using strings_Split_nonempty[of s sep] by (cases "strings_Split s sep") auto
  with Cons show ?case by (auto simp: Let_def split: if_splits)
qed

lemma strings_Split_Join:
  "ls \<noteq> [] \<Longrightarrow> \<forall>l\<in>set ls. sep \<notin> set l \<Longrightarrow> strings_Split (strings_Join ls sep) sep = ls"
proof (induction ls sep rule: strings_Join.induct)
  case (1 sep)
  then show ?case by simp
next
  case (2 l sep)
  then show ?case by (simp add: strings_Split_none)
next
  case (3 l v va sep)
  then show ?case by (simp add: strings_Split_append strings_Split_none)
qed

text \<open>The input "with blank lines removed and each remaining line trimmed".\<close>

definition normalized :: "string \<Rightarrow> string" where
  "normalized out =
     strings_Join (filter (\<lambda>l. l \<noteq> []) (map strings_TrimSpace (strings_Split out newline)))
       newline"

lemma toTrimmedLines_normalized: "toTrimmedLines (normalized out) = toTrimmedLines out"
proof -
  let ?L = "toTrimmedLines out"
  have n: "normalized out = strings_Join ?L newline"
    by (simp add: normalized_def toTrimmedLines_eq)
  have free: "\<forall>l\<in>set ?L. newline \<notin> set l"
    using strings_Split_free set_strings_TrimSpace by (fastforce simp: toTrimmedLines_eq)
  have fx: "filter (\<lambda>l. l \<noteq> []) (map strings_TrimSpace ?L) = ?L"
  proof -
    have "map strings_TrimSpace ?L = ?L"
      by (rule map_idI) (auto simp: toTrimmedLines_eq strings_TrimSpace_idem)
    moreover have "filter (\<lambda>l. l \<noteq> []) ?L = ?L" by (simp add: toTrimmedLines_eq)
    ultimately show ?thesis by simp
  qed
  show ?thesis
  proof (cases "?L = []")
    case True
    then show ?thesis by (simp add: n toTrimmedLines_Nil)
  next
    case False
    from strings_Split_Join[OF False free] fx show ?thesis
      by (simp add: n toTrimmedLines_eq[of "strings_Join ?L newline"])
  qed
qed

lemma toTrimmedLines_blank:
  assumes "strings_TrimSpace ws = []" "newline \<notin> set ws"
  shows "toTrimmedLines (a @ newline # ws @ newline # b) = toTrimmedLines (a @ newline # b)"
    and "toTrimmedLines (ws @ newline # b) = toTrimmedLines b"
    and "toTrimmedLines (a @ newline # ws) = toTrimmedLines a"
    and "toTrimmedLines ws = []"
  using assms
  by (simp_all add: toTrimmedLines_eq strings_Split_append strings_Split_none)

lemma parseGitStatusLineMust_malformed:
  assumes "space \<notin> set t \<or> takeWhile (\<lambda>c. c \<noteq> space) t \<notin> {''M'', ''A'', ''D'', ''??''}"
  shows "parseGitStatusLineMust os t = Inl (fmt_invalid_line, t)"
proof (cases "space \<in> set t")
  case False
  then show ?thesis by (simp add: parseGitStatusLineMust_def strings_SplitN2_def)
next
  case True
  with assms show ?thesis
    by (simp add: parseGitStatusLineMust_def strings_SplitN2_def Let_def)
qed

lemma parseGitStatusMust_loop_malformed:
  assumes "t \<in> set ls"
    "space \<notin> set t \<or> takeWhile (\<lambda>c. c \<noteq> space) t \<notin> {''M'', ''A'', ''D'', ''??''}"
  shows "\<exists>e. parseGitStatusMust_loop os inc ls res = Inl e"
  using assms(1)
proof (induction ls arbitrary: res)
  case Nil
  then show ?case by simp
next
  case (Cons l ls)
  show ?case
  proof (cases "parseGitStatusLineMust os l")
    case (Inl e)
    then show ?thesis by simp
  next
    case (Inr c)
    with parseGitStatusLineMust_malformed[OF assms(2), of os] have "l \<noteq> t" by auto
    with Cons.prems have "t \<in> set ls" by simp
    from Cons.IH[OF this] Inr show ?thesis by auto
  qed
qed

text \<open>
  \<^bold>\<open>C4.\<close> A status line \<open>code\<close>, one space, \<open>path\<close>, with \<open>code\<close> one of
  \<^verbatim>\<open>M\<close>, \<^verbatim>\<open>A\<close>, \<^verbatim>\<open>D\<close>, \<^verbatim>\<open>??\<close>, parses to one record: its kind is the one the code maps
  to, its path is the trimmed path token, and its name is \<^verbatim>\<open>filepath.Base\<close> of that path.
  The last two conjuncts say what that is: for a path \<open>dir\<close>, separator, \<open>name\<close> whose
  volume name (if any) ends before \<open>name\<close>, the name is \<open>name\<close>, the final path
  component; a path with no separator and no volume name is its own name.
\<close>

theorem parseGitStatusLineMust_well_formed:
  assumes "code \<in> {''M'', ''A'', ''D'', ''??''}"
  shows "\<exists>c. parseGitStatusLineMust os (code @ space # path) = Inr c
           \<and> Type c = (if code = ''M'' then Modified else if code = ''A'' then Added
                        else if code = ''D'' then Deleted else NotCheckedIn)
           \<and> Path c = strings_TrimSpace path
           \<and> Name c = filepath_Base os (Path c)
           \<and> (\<forall>dir sep name.
                 Path c = dir @ sep # name \<and> IsPathSeparator os sep \<and> name \<noteq> []
                 \<and> (\<forall>x\<in>set name. \<not> IsPathSeparator os x)
                 \<and> volumeNameLen os (Path c) \<le> Suc (length dir)
                 \<longrightarrow> Name c = name)
           \<and> (Path c \<noteq> [] \<and> (\<forall>x\<in>set (Path c). \<not> IsPathSeparator os x)
                 \<and> volumeNameLen os (Path c) = 0 \<longrightarrow> Name c = Path c)"
proof -
  have "space \<notin> set code" using assms by (auto simp: space_def)
  then have "strings_SplitN2 (code @ space # path) space = [code, path]"
    by (rule strings_SplitN2_cut)
  then have "parseGitStatusLineMust os (code @ space # path) =
           Inr \<lparr>Type = (if code = ''M'' then Modified else if code = ''A'' then Added
                         else if code = ''D'' then Deleted else NotCheckedIn),
                Path = strings_TrimSpace path,
                Name = filepath_Base os (strings_TrimSpace path)\<rparr>"
    using assms by (auto simp: parseGitStatusLineMust_def Let_def)
  then show ?thesis
    by (auto simp: filepath_Base_last filepath_Base_plain)
qed

theorem parseGitStatusLineMust_well_formed_witness:
  "\<exists>c. parseGitStatusLineMust Windows (''??'' @ space # '' src/junk.go'') = Inr c
        \<and> Type c = NotCheckedIn \<and> Path c = ''src/junk.go'' \<and> Name c = ''junk.go''"
proof -
  have t: "strings_TrimSpace '' src/junk.go'' = ''src/junk.go''" by code_simp
  have v: "volumeNameLen Windows ''src/junk.go'' \<le> Suc (length ''src'')" by code_simp
  have s: "IsPathSeparator Windows slash" by simp
  have n: "\<forall>x\<in>set ''junk.go''. \<not> IsPathSeparator Windows x"
    by (simp add: slash_def backslash_def)
  have p: "''src/junk.go'' = ''src'' @ slash # ''junk.go''" by (simp add: slash_def)
  have mem: "''??'' \<in> {''M'', ''A'', ''D'', ''??''}" by simp
  from parseGitStatusLineMust_well_formed[OF mem, of Windows "'' src/junk.go''", unfolded t]
  obtain c where c1: "parseGitStatusLineMust Windows (''??'' @ space # '' src/junk.go'') = Inr c"
    and c2: "Type c = (if ''??'' = ''M'' then Modified else if ''??'' = ''A'' then Added
                        else if ''??'' = ''D'' then Deleted else NotCheckedIn)"
    and c3: "Path c = ''src/junk.go''"
    and c4: "\<forall>dir sep name.
       Path c = dir @ sep # name \<and> IsPathSeparator Windows sep \<and> name \<noteq> []
       \<and> (\<forall>x\<in>set name. \<not> IsPathSeparator Windows x)
       \<and> volumeNameLen Windows (Path c) \<le> Suc (length dir)
       \<longrightarrow> Name c = name"
    by blast
  from c4 c3 p s n v have "Name c = ''junk.go''" by (metis list.distinct(1))
  moreover from c2 have "Type c = NotCheckedIn" by simp
  ultimately show ?thesis using c1 c3 by blast
qed

text \<open>
  \<^bold>\<open>C5\<close>, as stated, counts a line that is empty after trimming among the malformed
  lines that abort the parse. \<^verbatim>\<open>toTrimmedLines\<close> removes such lines before any line is
  parsed ("remove empty lines"): here the second line is blank, and the parse returns the
  record of the first.
\<close>

theorem blank_line_counterexample:
  "strings_Split (''M a.go'' @ [newline] @ ''  '') newline = [''M a.go'', ''  '']
   \<and> strings_TrimSpace ''  '' = []
   \<and> parseGitStatusMust Windows (''M a.go'' @ [newline] @ ''  '') False =
       Inr [\<lparr>Type = Modified, Path = ''a.go'', Name = ''a.go''\<rparr>]"
  by code_simp

text \<open>
  \<^bold>\<open>C5\<close>, amended. A line is malformed when, trimmed, it is not empty and either has no
  space (it does not split in two at the first space) or the token before its first
  space is none of \<^verbatim>\<open>M\<close>, \<^verbatim>\<open>A\<close>, \<^verbatim>\<open>D\<close>, \<^verbatim>\<open>??\<close>. An input with a malformed line is a
  fatal error, whatever the other lines are and whatever the flag: no list of records is
  returned, not even the records of the lines before.
\<close>

theorem parseGitStatusMust_malformed_aborts:
  assumes "l \<in> set (strings_Split out newline)"
    and "strings_TrimSpace l \<noteq> []"
    and "space \<notin> set (strings_TrimSpace l)
         \<or> takeWhile (\<lambda>c. c \<noteq> space) (strings_TrimSpace l) \<notin> {''M'', ''A'', ''D'', ''??''}"
  shows "\<exists>e. parseGitStatusMust os out includeNotCheckedIn = Inl e"
proof -
  from assms(1,2) have "strings_TrimSpace l \<in> set (toTrimmedLines out)"
    by (auto simp: toTrimmedLines_eq)
  from parseGitStatusMust_loop_malformed[OF this assms(3)]
  show ?thesis by (simp add: parseGitStatusMust_def)
qed

theorem parseGitStatusMust_malformed_aborts_witness:
  "\<exists>e. parseGitStatusMust Windows (''M a.go'' @ [newline] @ ''X b.go'') False = Inl e"
proof -
  have 1: "''X b.go'' \<in> set (strings_Split (''M a.go'' @ [newline] @ ''X b.go'') newline)"
    by code_simp
  have 2: "strings_TrimSpace ''X b.go'' \<noteq> []" by code_simp
  have 3: "space \<notin> set (strings_TrimSpace ''X b.go'')
         \<or> takeWhile (\<lambda>c. c \<noteq> space) (strings_TrimSpace ''X b.go'') \<notin> {''M'', ''A'', ''D'', ''??''}"
    by code_simp
  from parseGitStatusMust_malformed_aborts[OF 1 2 3] show ?thesis .
qed

text \<open>The scenario of the specification: four status lines, the last one untracked with
  two spaces after \<^verbatim>\<open>??\<close>.\<close>

definition scenario_status :: string where
  "scenario_status =
     ''M src/a.go'' @ [newline] @ ''A src/b.go'' @ [newline] @ ''D src/c.go'' @ [newline]
     @ ''??  src/junk.go'' @ [newline]"

lemma scenario_Windows:
  "parseGitStatusMust Windows scenario_status False =
     Inr [\<lparr>Type = Modified, Path = ''src/a.go'', Name = ''a.go''\<rparr>,
          \<lparr>Type = Added, Path = ''src/b.go'', Name = ''b.go''\<rparr>,
          \<lparr>Type = Deleted, Path = ''src/c.go'', Name = ''c.go''\<rparr>]"
  by code_simp

lemma scenario_Unix:
  "parseGitStatusMust Unix scenario_status False =
     Inr [\<lparr>Type = Modified, Path = ''src/a.go'', Name = ''a.go''\<rparr>,
          \<lparr>Type = Added, Path = ''src/b.go'', Name = ''b.go''\<rparr>,
          \<lparr>Type = Deleted, Path = ''src/c.go'', Name = ''c.go''\<rparr>]"
  by code_simp

text \<open>
  \<^bold>\<open>C10.\<close> The parse of an input is the parse of the input with its blank lines
  removed and its other lines trimmed. A line of white space only (one that trims to the
  empty string), alone, between two lines, first or last, changes nothing: it neither
  ends the parse nor adds a record.
\<close>

theorem parse_whitespace_normalizing:
  "parseGitStatusMust os out includeNotCheckedIn
     = parseGitStatusMust os (normalized out) includeNotCheckedIn
   \<and> (\<forall>ws a b. strings_TrimSpace ws = [] \<and> newline \<notin> set ws \<longrightarrow>
         parseGitStatusMust os ws includeNotCheckedIn = Inr []
         \<and> parseGitStatusMust os (a @ newline # ws @ newline # b) includeNotCheckedIn
             = parseGitStatusMust os (a @ newline # b) includeNotCheckedIn
         \<and> parseGitStatusMust os (ws @ newline # b) includeNotCheckedIn
             = parseGitStatusMust os b includeNotCheckedIn
         \<and> parseGitStatusMust os (a @ newline # ws) includeNotCheckedIn
             = parseGitStatusMust os a includeNotCheckedIn)"
  by (simp add: parseGitStatusMust_def toTrimmedLines_normalized toTrimmedLines_blank)

theorem parse_whitespace_normalizing_witness:
  "parseGitStatusMust Windows
     (''  M a.go '' @ [newline] @ [CHR 0x09, CHR 0x20] @ [newline] @ ''A  b.go'') False
   = parseGitStatusMust Windows (''M a.go'' @ [newline] @ ''A  b.go'') False
   \<and> parseGitStatusMust Windows [CHR 0x09, CHR 0x20] False = Inr []"
proof -
  let ?a = "''  M a.go ''" and ?ws = "[CHR 0x09, CHR 0x20]" and ?b = "''A  b.go''"
  have ws: "strings_TrimSpace ?ws = [] \<and> newline \<notin> set ?ws" by code_simp
  have n: "normalized (?a @ newline # ?b) = ''M a.go'' @ [newline] @ ''A  b.go''" by code_simp
  note T = parse_whitespace_normalizing[of Windows _ False]
  from T[of "?a @ newline # ?b"] have 1: "parseGitStatusMust Windows (?a @ newline # ?b) False
      = parseGitStatusMust Windows (''M a.go'' @ [newline] @ ''A  b.go'') False"
    unfolding n by blast
  from T[of "[]"] ws have 2: "parseGitStatusMust Windows ?ws False = Inr []"
    "parseGitStatusMust Windows (?a @ newline # ?ws @ newline # ?b) False
       = parseGitStatusMust Windows (?a @ newline # ?b) False"
    by blast+
  from 1 2 show ?thesis by simp
qed

section \<open>The effects of the tool's functions\<close>

subsection \<open>Printing, fatal errors and subprocesses\<close>

lemma Printf_eq: "Printf f a w = (Ret (), w\<lparr>stdout := stdout w @ [Print f a]\<rparr>)"
  by (simp add: Printf_def)

lemma fatalf_eq: "fatalf f a w = (Exit 1, w\<lparr>stdout := stdout w @ [Print f a, Stack]\<rparr>)"
  by (simp add: fatalf_def seq_def Printf_def printStack_def os_Exit_def)

lemma fatalif_eq:
  "fatalif c f a w = (if c then (Exit 1, w\<lparr>stdout := stdout w @ [Print f a, Stack]\<rparr>) else (Ret (), w))"
  by (simp add: fatalif_def seq_def Printf_def printStack_def os_Exit_def)

lemma fataliferr_eq:
  "fataliferr err w =
     (case err of None \<Rightarrow> (Ret (), w)
      | Some e \<Rightarrow> (Exit 1, w\<lparr>stdout := stdout w @ [Print (''%s'' @ [newline]) [PError e], Stack]\<rparr>))"
  by (simp add: fataliferr_def fatalf_eq split: option.splits)

lemma fataliferr_val_eq:
  "fataliferr_val (r, w) =
     (case r of Inr a \<Rightarrow> (Ret a, w)
      | Inl e \<Rightarrow> (Exit 1, w\<lparr>stdout := stdout w @ [Print (''%s'' @ [newline]) [PError e], Stack]\<rparr>))"
  by (simp add: fataliferr_val_def fatalf_eq split: sum.splits)

lemma seq_Ret: "m w = (Ret a, w') \<Longrightarrow> seq m f w = f a w'"
  by (simp add: seq_def)

lemma seq_Exit: "m w = (Exit n, w') \<Longrightarrow> seq m f w = (Exit n, w')"
  by (simp add: seq_def)

lemma runCmd_eq:
  "runCmd exe args w =
     ((case cmd_Output w exe args of None \<Rightarrow> Inl (ExitError exe) | Some out \<Rightarrow> Inr out),
      w\<lparr>stdout := stdout w @ [Print fmt_running [PStr (filepath_Base (platform w) exe), PStrs args]],
        cmds := cmds w @ [(exe, args)]\<rparr>)"
  by (simp add: runCmd_def Printf_eq Let_def split: option.splits)


subsection \<open>Files\<close>

text \<open>\<open>same_but K w w'\<close>: the world \<open>w'\<close> is \<open>w\<close> except for what has been printed and
  run, and for the files at the paths in \<open>K\<close>.\<close>

definition same_but :: "fpath set \<Rightarrow> world \<Rightarrow> world \<Rightarrow> bool" where
  "same_but K w w' =
     (platform w' = platform w \<and> cwd w' = cwd w \<and> environ w' = environ w
      \<and> lookPath w' = lookPath w \<and> now w' = now w \<and> time_Format w' = time_Format w
      \<and> cmd_Output w' = cmd_Output w \<and> gitPath w' = gitPath w
      \<and> winMergePath w' = winMergePath w \<and> tempDir w' = tempDir w
      \<and> (\<forall>k. k \<notin> K \<longrightarrow> lookup w' k = lookup w k))"

lemma same_but_refl: "same_but K w w"
  by (simp add: same_but_def)

lemma same_but_trans:
  "same_but K w w1 \<Longrightarrow> same_but K' w1 w2 \<Longrightarrow> same_but (K \<union> K') w w2"
  by (simp add: same_but_def)

lemma same_but_mono: "same_but K w w' \<Longrightarrow> K \<subseteq> K' \<Longrightarrow> same_but K' w w'"
  by (auto simp: same_but_def)

lemma same_but_stdout: "same_but K w (w\<lparr>stdout := s\<rparr>)"
  by (simp add: same_but_def lookup_def)

lemma same_but_stdout_cmds: "same_but K w (w\<lparr>stdout := s, cmds := c\<rparr>)"
  by (simp add: same_but_def lookup_def)

lemma lookup_put: "lookup (put k v w) k' = (if k' = k then Some v else lookup w k')"
  by (simp add: lookup_def put_def update_conv')

lemma same_but_put: "same_but {k} w (put k v w)"
  by (simp add: same_but_def lookup_put) (simp add: put_def)

lemma resolve_same: "same_but K w w' \<Longrightarrow> resolve w' p = resolve w p"
  by (simp add: same_but_def resolve_def)

lemma lookup_same: "same_but K w w' \<Longrightarrow> k \<notin> K \<Longrightarrow> lookup w' k = lookup w k"
  by (simp add: same_but_def)

lemma isFile_put: "k' \<noteq> k \<Longrightarrow> isFile (put k v w) k' = isFile w k'"
  by (simp add: isFile_def lookup_put)

lemma isDir_put: "k' \<noteq> k \<Longrightarrow> isDir (put k v w) k' = isDir w k'"
  by (simp add: isDir_def lookup_put)

lemma os_Create_Inr:
  "os_Create p w = (Inr k, w') \<Longrightarrow> k = resolve w p \<and> w' = put k (File []) w"
  by (auto simp: os_Create_def Let_def split: if_splits)

lemma os_Create_Inl: "os_Create p w = (Inl e, w') \<Longrightarrow> w' = w"
  by (auto simp: os_Create_def Let_def split: if_splits)

lemma os_Open_Inr:
  "os_Open p w = (Inr k, w') \<Longrightarrow>
     k = resolve w p \<and> w' = w \<and> isFile w k \<and> (\<exists>c. lookup w k = Some (File c))"
  by (auto simp: os_Open_def Let_def isFile_def split: if_splits option.splits node.splits)

lemma os_Open_Inl: "os_Open p w = (Inl e, w') \<Longrightarrow> w' = w"
  by (auto simp: os_Open_def Let_def split: if_splits)

lemma file_Write_None:
  "file_Write f d w = (None, w') \<Longrightarrow> \<exists>c. lookup w f = Some (File c) \<and> w' = put f (File (c @ d)) w"
  by (auto simp: file_Write_def split: option.splits node.splits)

lemma file_Write_Some: "file_Write f d w = (Some e, w') \<Longrightarrow> w' = w"
  by (auto simp: file_Write_def split: option.splits node.splits)

lemma createEmptyFileMust_sound:
  assumes "createEmptyFileMust p w = (r, w')"
  shows "same_but {resolve w p} w w'
         \<and> (r = Ret () \<longrightarrow> lookup w' (resolve w p) = Some (File []))
         \<and> (r \<noteq> Ret () \<longrightarrow> r = Exit 1 \<and> fs w' = fs w)"
proof (cases "os_Create p w")
  case (Pair x w1)
  show ?thesis
  proof (cases x)
    case (Inl e)
    with Pair have "w1 = w" by (auto dest: os_Create_Inl)
    with Pair Inl assms show ?thesis
      by (auto simp: createEmptyFileMust_def seq_def fataliferr_val_eq same_but_stdout)
  next
    case (Inr k)
    with Pair have "k = resolve w p" "w1 = put k (File []) w" by (auto dest: os_Create_Inr)
    with Pair Inr assms show ?thesis
      by (auto simp: createEmptyFileMust_def seq_def fataliferr_val_eq same_but_put lookup_put)
  qed
qed

lemma gitGetFileContentHeadMust_sound:
  assumes "gitGetFileContentHeadMust path w = (r, w')"
  shows "same_but {} w w'
         \<and> (case r of
               Ret d \<Rightarrow> cmd_Output w (gitPath w) [''show'', ''HEAD:'' @ path] = Some d
             | Exit n \<Rightarrow> n = 1 \<and> cmd_Output w (gitPath w) [''show'', ''HEAD:'' @ path] = None)"
  using assms
  by (auto simp: gitGetFileContentHeadMust_def runCmd_eq fataliferr_val_eq same_but_stdout_cmds
        same_but_def lookup_def split: option.splits)

lemma copyFileMust_sound:
  assumes "copyFileMust dst src w = (r, w')"
  defines "dk \<equiv> resolve w (strings_Replace dst slash backslash)"
    and "sk \<equiv> resolve w (strings_Replace src slash backslash)"
  shows "same_but {dk} w w'
         \<and> (r = Ret () \<or> r = Exit 1)
         \<and> (r = Ret () \<longrightarrow>
              (\<exists>c. lookup w' dk = Some (File c) \<and> (sk \<noteq> dk \<longrightarrow> lookup w sk = Some (File c))))
         \<and> (sk \<noteq> dk \<and> \<not> isFile w sk \<longrightarrow> r = Exit 1)"
proof (cases "os_Create (strings_Replace dst slash backslash) w")
  case (Pair x w1)
  show ?thesis
  proof (cases x)
    case (Inl e)
    with Pair have "w1 = w" by (auto dest: os_Create_Inl)
    with Pair Inl assms(1) show ?thesis
      by (auto simp: copyFileMust_def seq_def fataliferr_val_eq same_but_stdout)
  next
    case (Inr k)
    with Pair have k: "k = dk" and w1: "w1 = put dk (File []) w"
      by (auto dest: os_Create_Inr simp: dk_def)
    have s1: "same_but {dk} w w1" by (simp add: w1 same_but_put)
    have sk1: "resolve w1 (strings_Replace src slash backslash) = sk"
      using resolve_same[OF s1] by (simp add: sk_def)
    have step1: "copyFileMust dst src w =
        seq (\<lambda>w. fataliferr_val (os_Open (strings_Replace src slash backslash) w))
          (\<lambda>fsrc w. let (err, w') = io_Copy dk fsrc w in fataliferr err w') w1"
      using Pair Inr k by (simp add: copyFileMust_def seq_def fataliferr_val_eq)
    show ?thesis
    proof (cases "os_Open (strings_Replace src slash backslash) w1")
      case (Pair y w2)
      show ?thesis
      proof (cases y)
        case (Inl e)
        with Pair have "w2 = w1" by (auto dest: os_Open_Inl)
        with Pair Inl assms(1) step1 s1 show ?thesis
          by (auto simp: seq_def fataliferr_val_eq same_but_def lookup_def)
      next
        case (Inr f)
        with Pair sk1 obtain c where f: "f = sk" and w2: "w2 = w1"
          and c: "lookup w1 sk = Some (File c)" and isf: "isFile w1 sk"
          by (auto dest: os_Open_Inr)
        have "lookup w1 dk = Some (File [])" by (simp add: w1 lookup_put)
        then have cp: "io_Copy dk sk w1 = (None, put dk (File c) w1)"
          using c by (simp add: io_Copy_def file_Write_def)
        have r: "r = Ret ()" and w': "w' = put dk (File c) w1"
          using assms(1) step1 Pair Inr f w2 cp
          by (auto simp: seq_def fataliferr_val_eq fataliferr_eq)
        have "same_but {dk} w w'"
          using same_but_trans[OF s1 same_but_put[of dk w1 "File c"]] by (simp add: w')
        moreover have "lookup w' dk = Some (File c)" by (simp add: w' lookup_put)
        moreover have "sk \<noteq> dk \<longrightarrow> lookup w sk = Some (File c)"
          using c by (auto simp: w1 lookup_put)
        moreover have "sk \<noteq> dk \<longrightarrow> isFile w sk"
          using isf by (auto simp: w1 isFile_put)
        ultimately show ?thesis using r by auto
      qed
    qed
  qed
qed

lemma catGitHeadToFileMust_sound:
  assumes "catGitHeadToFileMust dst gp w = (r, w')"
  shows "same_but {resolve w dst} w w'
         \<and> (r = Ret () \<or> r = Exit 1)
         \<and> (r = Ret () \<longrightarrow>
              (\<exists>d. cmd_Output w (gitPath w) [''show'', ''HEAD:'' @ gp] = Some d
                   \<and> lookup w' (resolve w dst) = Some (File d)))"
proof -
  define w0 where "w0 = w\<lparr>stdout := stdout w @ [Print fmt_cat [PStr gp, PStr dst]]\<rparr>"
  have s0: "same_but {} w w0" by (simp add: w0_def same_but_stdout)
  have step0: "catGitHeadToFileMust dst gp w =
      seq (gitGetFileContentHeadMust gp)
         (\<lambda>d. seq (\<lambda>w. fataliferr_val (os_Create dst w))
           (\<lambda>f w. let (err, w') = file_Write f d w in fataliferr err w')) w0"
    by (simp add: catGitHeadToFileMust_def seq_def Printf_eq w0_def)
  obtain g w1 where g: "gitGetFileContentHeadMust gp w0 = (g, w1)"
    by (cases "gitGetFileContentHeadMust gp w0") auto
  note G = gitGetFileContentHeadMust_sound[OF g]
  have s1: "same_but {} w w1" using same_but_trans[OF s0 conjunct1[OF G]] by simp
  show ?thesis
  proof (cases g)
    case (Exit n)
    with G g step0 assms s1 show ?thesis
      by (auto simp: seq_def intro: same_but_mono)
  next
    case (Ret d)
    with G have d: "cmd_Output w (gitPath w) [''show'', ''HEAD:'' @ gp] = Some d"
      using s0 by (simp add: same_but_def)
    have step1: "catGitHeadToFileMust dst gp w =
        seq (\<lambda>w. fataliferr_val (os_Create dst w))
           (\<lambda>f w. let (err, w') = file_Write f d w in fataliferr err w') w1"
      using step0 g Ret by (simp add: seq_def)
    have r1: "resolve w1 dst = resolve w dst" using resolve_same[OF s1] .
    show ?thesis
    proof (cases "os_Create dst w1")
      case (Pair x w2)
      show ?thesis
      proof (cases x)
        case (Inl e)
        with Pair have "w2 = w1" by (auto dest: os_Create_Inl)
        with Pair Inl assms step1 s1 show ?thesis
          by (auto simp: seq_def fataliferr_val_eq same_but_def lookup_def)
      next
        case (Inr k)
        with Pair r1 have k: "k = resolve w dst" and w2: "w2 = put k (File []) w1"
          by (auto dest: os_Create_Inr)
        have "file_Write k d w2 = (None, put k (File d) w2)"
          by (simp add: file_Write_def w2 lookup_put)
        with assms step1 Pair Inr have r: "r = Ret ()" and w': "w' = put k (File d) w2"
          by (auto simp: seq_def fataliferr_val_eq fataliferr_eq)
        have "same_but ({} \<union> {k} \<union> {k}) w w'"
          unfolding w' w2
          by (intro same_but_trans[OF _ same_but_put] same_but_trans[OF s1 same_but_put])
        then have "same_but {resolve w dst} w w'" by (simp add: k)
        moreover have "lookup w' (resolve w dst) = Some (File d)" by (simp add: w' lookup_put k)
        ultimately show ?thesis using r d by auto
      qed
    qed
  qed
qed


subsection \<open>Resolved paths\<close>

text \<open>A plain name is one path element: not empty, not \<^verbatim>\<open>.\<close> or \<^verbatim>\<open>..\<close>, without a separator
  and not a drive. Joining a plain name to a directory resolves to the directory's path
  followed by the name; on Windows, replacing \<^verbatim>\<open>/\<close> by \<^verbatim>\<open>\\<close> does not change what a path
  resolves to.\<close>

definition plain :: "goos \<Rightarrow> string \<Rightarrow> bool" where
  "plain os n =
     (n \<noteq> [] \<and> n \<noteq> ''.'' \<and> n \<noteq> ''..'' \<and> (\<forall>c\<in>set n. \<not> IsPathSeparator os c)
      \<and> \<not> rooted os n)"

lemma pieces_nonempty: "pieces P s \<noteq> []"
  by (induction s) (auto simp: Let_def)

lemma pieces_none: "\<forall>c\<in>set s. \<not> P c \<Longrightarrow> pieces P s = [s]"
proof (induction s)
  case Nil
  then show ?case by simp
next
  case (Cons c s)
  then show ?case by (simp add: Let_def)
qed

lemma pieces_append: "P x \<Longrightarrow> pieces P (a @ x # b) = pieces P a @ pieces P b"
proof (induction a)
  case Nil
  then show ?case by (simp add: Let_def)
next
  case (Cons c a)
  then show ?case using pieces_nonempty[of P a]
    by (cases "pieces P a") (auto simp: Let_def)
qed

lemma rooted_append: "d \<noteq> [] \<Longrightarrow> IsPathSeparator os x \<Longrightarrow> rooted os (d @ x # n) = rooted os d"
proof -
  assume d: "d \<noteq> []" and x: "IsPathSeparator os x"
  have "x \<noteq> CHR '':''" using x by (cases os) (auto simp: slash_def backslash_def)
  then show ?thesis using d
    by (cases d; cases "tl d") (auto simp: rooted_def nth_append nth_Cons')
qed

lemma resolve_Join:
  assumes "plain (platform w) n"
  shows "resolve w (filepath_Join (platform w) d n) = resolve w d @ [n]"
proof -
  let ?os = "platform w"
  let ?P = "IsPathSeparator ?os"
  have n: "pieces ?P n = [n]" using assms by (simp add: plain_def pieces_none)
  have e: "\<And>k. enter k n = k @ [n]" using assms by (simp add: plain_def enter_def)
  have sep: "?P (Separator ?os)" by (cases ?os) auto
  show ?thesis
  proof (cases "d = []")
    case True
    have rn: "\<not> rooted ?os n" using assms by (simp add: plain_def)
    have r0: "\<not> rooted ?os []" by (simp add: rooted_def)
    have e0: "\<And>k. enter k [] = k" by (simp add: enter_def)
    show ?thesis using True n e
      by (simp add: resolve_def filepath_Join_def rn r0 e0)
  next
    case False
    have "n \<noteq> []" using assms by (simp add: plain_def)
    then show ?thesis using False n e sep
      by (simp add: resolve_def filepath_Join_def rooted_append pieces_append)
  qed
qed

lemma pieces_Replace:
  "pieces (IsPathSeparator Windows) (strings_Replace p slash backslash)
     = pieces (IsPathSeparator Windows) p"
  by (induction p) (auto simp: strings_Replace_def Let_def)

lemma rooted_Replace: "rooted Windows (strings_Replace p slash backslash) = rooted Windows p"
proof -
  have 1: "\<And>c. (if c = slash then backslash else c) = CHR '':'' \<longleftrightarrow> c = CHR '':''"
    by (simp add: slash_def backslash_def)
  have 2: "\<And>c. isLetter (if c = slash then backslash else c) = isLetter c"
    by (simp add: slash_def backslash_def isLetter_def)
  have 3: "\<And>c. IsPathSeparator Windows (if c = slash then backslash else c)
              = IsPathSeparator Windows c"
    by simp
  show ?thesis
    by (cases p; cases "tl p")
       (auto simp add: rooted_def strings_Replace_def 1 2 3 simp del: IsPathSeparator.simps)
qed

lemma resolve_Replace:
  "platform w = Windows \<Longrightarrow> resolve w (strings_Replace p slash backslash) = resolve w p"
  by (simp add: resolve_def pieces_Replace rooted_Replace)

subsection \<open>One record\<close>

text \<open>\<open>before_file\<close> and \<open>after_file\<close> are the two files of a record in a snapshot
  directory, \<^verbatim>\<open>before/<Name>\<close> and \<^verbatim>\<open>after/<Name>\<close>; \<open>head_content\<close> is what
  \<^verbatim>\<open>git show HEAD:<Path>\<close> prints, if it succeeds.\<close>

definition before_file :: "world \<Rightarrow> string \<Rightarrow> GitChange \<Rightarrow> fpath" where
  "before_file w dir change =
     resolve w (filepath_Join (platform w) (filepath_Join (platform w) dir ''before'') (Name change))"

definition after_file :: "world \<Rightarrow> string \<Rightarrow> GitChange \<Rightarrow> fpath" where
  "after_file w dir change =
     resolve w (filepath_Join (platform w) (filepath_Join (platform w) dir ''after'') (Name change))"

definition head_content :: "world \<Rightarrow> GitChange \<Rightarrow> string option" where
  "head_content w change = cmd_Output w (gitPath w) [''show'', ''HEAD:'' @ Path change]"

lemma copyFileAddedMust_sound:
  assumes "platform w = Windows"
    and "copyFileAddedMust (filepath_Join (platform w) dir ''before'')
           (filepath_Join (platform w) dir ''after'') change w = (r, w')"
  defines "bk \<equiv> before_file w dir change" and "ak \<equiv> after_file w dir change"
    and "sk \<equiv> resolve w (Path change)"
  shows "same_but {bk, ak} w w' \<and> (r = Ret () \<or> r = Exit 1)
         \<and> (r = Ret () \<and> bk \<noteq> ak \<and> sk \<notin> {bk, ak} \<longrightarrow>
              lookup w' bk = Some (File [])
              \<and> (\<exists>c. lookup w sk = Some (File c) \<and> lookup w' ak = Some (File c)))"
proof -
  let ?bp = "filepath_Join (platform w) (filepath_Join (platform w) dir ''before'') (Name change)"
  let ?ap = "filepath_Join (platform w) (filepath_Join (platform w) dir ''after'') (Name change)"
  obtain r1 w1 where c1: "createEmptyFileMust ?bp w = (r1, w1)"
    by (cases "createEmptyFileMust ?bp w") auto
  note C1 = createEmptyFileMust_sound[OF c1]
  have s1: "same_but {bk} w w1" using C1 by (simp add: bk_def before_file_def)
  have p1: "platform w1 = Windows" using s1 assms(1) by (simp add: same_but_def)
  show ?thesis
  proof (cases "r1 = Ret ()")
    case False
    with c1 C1 assms(2) have "r = Exit 1" "w' = w1"
      by (auto simp: copyFileAddedMust_def seq_def split: outcome.splits)
    with s1 show ?thesis by (auto intro: same_but_mono)
  next
    case True
    with c1 assms(2) have c2: "copyFileMust ?ap (Path change) w1 = (r, w')"
      by (simp add: copyFileAddedMust_def seq_def)
    note C2 = copyFileMust_sound[OF c2]
    have ak1: "resolve w1 (strings_Replace ?ap slash backslash) = ak"
      using resolve_same[OF s1] resolve_Replace[OF p1] by (simp add: ak_def after_file_def)
    have sk1: "resolve w1 (strings_Replace (Path change) slash backslash) = sk"
      using resolve_same[OF s1] resolve_Replace[OF p1] by (simp add: sk_def)
    have s2: "same_but {ak} w1 w'" using C2 ak1 by simp
    have s: "same_but {bk, ak} w w'"
      using same_but_trans[OF s1 s2] by (simp add: insert_commute)
    have b1: "lookup w1 bk = Some (File [])"
      using C1 True by (simp add: bk_def before_file_def)
    have post: "r = Ret () \<and> bk \<noteq> ak \<and> sk \<notin> {bk, ak} \<longrightarrow>
              lookup w' bk = Some (File [])
              \<and> (\<exists>c. lookup w sk = Some (File c) \<and> lookup w' ak = Some (File c))"
    proof (intro impI, elim conjE)
      assume r: "r = Ret ()" and ne: "bk \<noteq> ak" and sk: "sk \<notin> {bk, ak}"
      from C2 r ak1 sk1 sk obtain c where
        c: "lookup w' ak = Some (File c)" "lookup w1 sk = Some (File c)"
        by auto
      have "lookup w' bk = lookup w1 bk" using lookup_same[OF s2, of bk] ne by simp
      then have 1: "lookup w' bk = Some (File [])" using b1 by simp
      have "lookup w1 sk = lookup w sk" using lookup_same[OF s1, of sk] sk by simp
      then have 2: "lookup w sk = Some (File c)" using c(2) by simp
      from 1 2 c(1) show "lookup w' bk = Some (File [])
              \<and> (\<exists>c. lookup w sk = Some (File c) \<and> lookup w' ak = Some (File c))"
        by blast
    qed
    from C2 s post show ?thesis by simp
  qed
qed

lemma copyFileModifiedMust_sound:
  assumes "platform w = Windows"
    and "copyFileModifiedMust (filepath_Join (platform w) dir ''before'')
           (filepath_Join (platform w) dir ''after'') change w = (r, w')"
  defines "bk \<equiv> before_file w dir change" and "ak \<equiv> after_file w dir change"
    and "sk \<equiv> resolve w (Path change)"
  shows "same_but {bk, ak} w w' \<and> (r = Ret () \<or> r = Exit 1)
         \<and> (sk \<noteq> ak \<and> \<not> isFile w sk \<longrightarrow>
              r = Exit 1 \<and> (bk \<noteq> ak \<longrightarrow> lookup w' bk = lookup w bk))
         \<and> (r = Ret () \<and> bk \<noteq> ak \<and> sk \<noteq> ak \<longrightarrow>
              (\<exists>c. lookup w sk = Some (File c) \<and> lookup w' ak = Some (File c))
              \<and> (\<exists>d. head_content w change = Some d \<and> lookup w' bk = Some (File d)))"
proof -
  let ?bp = "filepath_Join (platform w) (filepath_Join (platform w) dir ''before'') (Name change)"
  let ?ap = "filepath_Join (platform w) (filepath_Join (platform w) dir ''after'') (Name change)"
  obtain r1 w1 where c1: "copyFileMust ?ap (Path change) w = (r1, w1)"
    by (cases "copyFileMust ?ap (Path change) w") auto
  note C1 = copyFileMust_sound[OF c1]
  have ak0: "resolve w (strings_Replace ?ap slash backslash) = ak"
    using resolve_Replace[OF assms(1)] by (simp add: ak_def after_file_def)
  have sk0: "resolve w (strings_Replace (Path change) slash backslash) = sk"
    using resolve_Replace[OF assms(1)] by (simp add: sk_def)
  have s1: "same_but {ak} w w1" using C1 ak0 by simp
  show ?thesis
  proof (cases "r1 = Ret ()")
    case False
    with c1 C1 assms(2) have "r = Exit 1" "w' = w1"
      by (auto simp: copyFileModifiedMust_def seq_def split: outcome.splits)
    with s1 show ?thesis
      by (auto intro: same_but_mono dest: lookup_same[of _ _ _ bk])
  next
    case True
    with c1 assms(2) have c2: "catGitHeadToFileMust ?bp (Path change) w1 = (r, w')"
      by (simp add: copyFileModifiedMust_def seq_def)
    note C2 = catGitHeadToFileMust_sound[OF c2]
    have bk1: "resolve w1 ?bp = bk"
      using resolve_same[OF s1] by (simp add: bk_def before_file_def)
    have s2: "same_but {bk} w1 w'" using C2 bk1 by simp
    have s: "same_but {bk, ak} w w'"
      using same_but_trans[OF s1 s2] by (simp add: insert_commute Un_commute)
    have nofile: "sk \<noteq> ak \<and> \<not> isFile w sk \<longrightarrow> False"
      using C1 True ak0 sk0 by auto
    have post: "r = Ret () \<and> bk \<noteq> ak \<and> sk \<noteq> ak \<longrightarrow>
              (\<exists>c. lookup w sk = Some (File c) \<and> lookup w' ak = Some (File c))
              \<and> (\<exists>d. head_content w change = Some d \<and> lookup w' bk = Some (File d))"
    proof (intro impI, elim conjE)
      assume r: "r = Ret ()" and ne: "bk \<noteq> ak" and sk: "sk \<noteq> ak"
      from C1 True ak0 sk0 sk obtain c where
        c: "lookup w1 ak = Some (File c)" "lookup w sk = Some (File c)"
        by auto
      from C2 r bk1 obtain d where
        d: "cmd_Output w1 (gitPath w1) [''show'', ''HEAD:'' @ Path change] = Some d"
           "lookup w' bk = Some (File d)"
        by auto
      have "lookup w' ak = lookup w1 ak" using lookup_same[OF s2, of ak] ne by simp
      moreover have "head_content w change = Some d"
        using d(1) s1 by (simp add: head_content_def same_but_def)
      ultimately show "(\<exists>c. lookup w sk = Some (File c) \<and> lookup w' ak = Some (File c))
              \<and> (\<exists>d. head_content w change = Some d \<and> lookup w' bk = Some (File d))"
        using c d by simp
    qed
    from C2 s post nofile show ?thesis by blast
  qed
qed

lemma copyFileDeletedMust_sound:
  assumes "copyFileDeletedMust (filepath_Join (platform w) dir ''before'')
           (filepath_Join (platform w) dir ''after'') change w = (r, w')"
  defines "bk \<equiv> before_file w dir change" and "ak \<equiv> after_file w dir change"
  shows "same_but {bk, ak} w w' \<and> (r = Ret () \<or> r = Exit 1)
         \<and> (r = Ret () \<and> bk \<noteq> ak \<longrightarrow>
              lookup w' ak = Some (File [])
              \<and> (\<exists>d. head_content w change = Some d \<and> lookup w' bk = Some (File d)))"
proof -
  let ?bp = "filepath_Join (platform w) (filepath_Join (platform w) dir ''before'') (Name change)"
  let ?ap = "filepath_Join (platform w) (filepath_Join (platform w) dir ''after'') (Name change)"
  obtain r1 w1 where c1: "createEmptyFileMust ?ap w = (r1, w1)"
    by (cases "createEmptyFileMust ?ap w") auto
  note C1 = createEmptyFileMust_sound[OF c1]
  have s1: "same_but {ak} w w1" using C1 by (simp add: ak_def after_file_def)
  show ?thesis
  proof (cases "r1 = Ret ()")
    case False
    with c1 C1 assms(1) have "r = Exit 1" "w' = w1"
      by (auto simp: copyFileDeletedMust_def seq_def split: outcome.splits)
    with s1 show ?thesis by (auto intro: same_but_mono)
  next
    case True
    with c1 assms(1) have c2: "catGitHeadToFileMust ?bp (Path change) w1 = (r, w')"
      by (simp add: copyFileDeletedMust_def seq_def)
    note C2 = catGitHeadToFileMust_sound[OF c2]
    have bk1: "resolve w1 ?bp = bk"
      using resolve_same[OF s1] by (simp add: bk_def before_file_def)
    have s2: "same_but {bk} w1 w'" using C2 bk1 by simp
    have s: "same_but {bk, ak} w w'"
      using same_but_trans[OF s1 s2] by (simp add: insert_commute Un_commute)
    have a1: "lookup w1 ak = Some (File [])"
      using C1 True by (simp add: ak_def after_file_def)
    have post: "r = Ret () \<and> bk \<noteq> ak \<longrightarrow>
              lookup w' ak = Some (File [])
              \<and> (\<exists>d. head_content w change = Some d \<and> lookup w' bk = Some (File d))"
    proof (intro impI, elim conjE)
      assume r: "r = Ret ()" and ne: "bk \<noteq> ak"
      from C2 r bk1 obtain d where
        d: "cmd_Output w1 (gitPath w1) [''show'', ''HEAD:'' @ Path change] = Some d"
           "lookup w' bk = Some (File d)"
        by auto
      have "lookup w' ak = lookup w1 ak" using lookup_same[OF s2, of ak] ne by simp
      moreover have "head_content w change = Some d"
        using d(1) s1 by (simp add: head_content_def same_but_def)
      ultimately show "lookup w' ak = Some (File [])
              \<and> (\<exists>d. head_content w change = Some d \<and> lookup w' bk = Some (File d))"
        using a1 d by simp
    qed
    from C2 s post show ?thesis by blast
  qed
qed

lemma os_Create_ok:
  assumes "\<not> isDir w (resolve w p)" "isDir w (butlast (resolve w p))"
  shows "os_Create p w = (Inr (resolve w p), put (resolve w p) (File []) w)"
  using assms by (simp add: os_Create_def Let_def)

lemma createEmptyFileMust_ok:
  assumes "\<not> isDir w (resolve w p)" "isDir w (butlast (resolve w p))"
  shows "createEmptyFileMust p w = (Ret (), put (resolve w p) (File []) w)"
  using assms by (simp add: createEmptyFileMust_def seq_def fataliferr_val_eq os_Create_ok)

lemma copyFileMust_ok:
  assumes "\<not> isDir w dk" "isDir w (butlast dk)" "lookup w sk = Some (File c)" "sk \<noteq> []"
    "sk \<noteq> dk"
    and "dk = resolve w (strings_Replace dst slash backslash)"
    and "sk = resolve w (strings_Replace src slash backslash)"
  shows "copyFileMust dst src w = (Ret (), put dk (File c) (put dk (File []) w))"
proof -
  let ?w1 = "put dk (File []) w"
  have 1: "os_Create (strings_Replace dst slash backslash) w = (Inr dk, ?w1)"
    using assms(1,2,6) by (simp add: os_Create_ok)
  have r: "resolve ?w1 (strings_Replace src slash backslash) = sk"
    using resolve_same[OF same_but_put[of dk w "File []"]] assms(7) by simp
  have "isFile ?w1 sk" using assms(3,4,5) by (simp add: isFile_def lookup_put)
  then have 2: "os_Open (strings_Replace src slash backslash) ?w1 = (Inr sk, ?w1)"
    using r by (simp add: os_Open_def Let_def)
  have 3: "io_Copy dk sk ?w1 = (None, put dk (File c) ?w1)"
    using assms(3,5) by (simp add: io_Copy_def file_Write_def lookup_put)
  show ?thesis
    by (simp add: copyFileMust_def seq_def fataliferr_val_eq fataliferr_eq 1 2 3)
qed

lemma copyFileAddedMust_ok:
  assumes "platform w = Windows"
    and "bk = before_file w dir change" "ak = after_file w dir change"
    and "sk = resolve w (Path change)"
    and "\<not> isDir w bk" "isDir w (butlast bk)" "\<not> isDir w ak" "isDir w (butlast ak)"
    and "lookup w sk = Some (File c)" "sk \<noteq> []"
    and "bk \<noteq> ak" "sk \<noteq> ak" "sk \<noteq> bk" "butlast ak \<noteq> bk"
  shows "copyFileChangeMust dir \<lparr>Type = Added, Path = Path change, Name = Name change\<rparr> w =
           (Ret (), put ak (File c) (put ak (File []) (put bk (File []) w)))"
proof -
  let ?os = "platform w"
  let ?bp = "filepath_Join ?os (filepath_Join ?os dir ''before'') (Name change)"
  let ?ap = "filepath_Join ?os (filepath_Join ?os dir ''after'') (Name change)"
  let ?w1 = "put bk (File []) w"
  have bk: "resolve w ?bp = bk" and ak: "resolve w ?ap = ak"
    using assms(2,3) by (simp_all add: before_file_def after_file_def)
  have 1: "createEmptyFileMust ?bp w = (Ret (), ?w1)"
    using createEmptyFileMust_ok[of w ?bp] assms(5,6) bk by simp
  have s1: "same_but {bk} w ?w1" by (rule same_but_put)
  have p1: "platform ?w1 = Windows" using s1 assms(1) by (simp add: same_but_def)
  have ak1: "ak = resolve ?w1 (strings_Replace ?ap slash backslash)"
    using resolve_same[OF s1] resolve_Replace[OF p1] ak by simp
  have sk1: "sk = resolve ?w1 (strings_Replace (Path change) slash backslash)"
    using resolve_same[OF s1] resolve_Replace[OF p1] assms(4) by simp
  have 2: "copyFileMust ?ap (Path change) ?w1 = (Ret (), put ak (File c) (put ak (File []) ?w1))"
    using assms(7-14)
    by (intro copyFileMust_ok[OF _ _ _ _ _ ak1 sk1]) (simp_all add: isDir_put lookup_put)
  show ?thesis using 1 2
    by (simp add: copyFileChangeMust_def getBeforeAfterDirs_def copyFileAddedMust_def seq_def)
qed

lemma copyFileChangeMust_unknown:
  assumes "Type change \<noteq> Added" "Type change \<noteq> Modified" "Type change \<noteq> Deleted"
  shows "copyFileChangeMust dir change w =
           (Exit 1, w\<lparr>stdout := stdout w @ [Print fmt_unknown_change [PChange change], Stack]\<rparr>)"
  using assms by (simp add: copyFileChangeMust_def getBeforeAfterDirs_def fatalif_eq)

subsection \<open>All records\<close>

lemma before_file_same: "same_but K w w1 \<Longrightarrow> before_file w1 dir c = before_file w dir c"
  by (simp add: before_file_def same_but_def resolve_def)

lemma after_file_same: "same_but K w w1 \<Longrightarrow> after_file w1 dir c = after_file w dir c"
  by (simp add: after_file_def same_but_def resolve_def)

lemma copyFileChangeMust_frame:
  assumes "platform w = Windows" and "copyFileChangeMust dir change w = (r, w')"
  shows "same_but {before_file w dir change, after_file w dir change} w w'
         \<and> (r = Ret () \<or> r = Exit 1)"
proof -
  consider (a) "Type change = Added" | (m) "Type change \<noteq> Added" "Type change = Modified"
    | (d) "Type change \<noteq> Added" "Type change \<noteq> Modified" "Type change = Deleted"
    | (u) "Type change \<noteq> Added" "Type change \<noteq> Modified" "Type change \<noteq> Deleted"
    by blast
  then show ?thesis
  proof cases
    case a
    with assms(2) copyFileAddedMust_sound[OF assms(1), of dir change r w'] show ?thesis
      by (simp add: copyFileChangeMust_def getBeforeAfterDirs_def)
  next
    case m
    with assms(2) copyFileModifiedMust_sound[OF assms(1), of dir change r w'] show ?thesis
      by (simp add: copyFileChangeMust_def getBeforeAfterDirs_def)
  next
    case d
    with assms(2) copyFileModifiedMust_sound[OF assms(1), of dir change r w'] show ?thesis
      by (simp add: copyFileChangeMust_def getBeforeAfterDirs_def)
  next
    case u
    with assms(2) show ?thesis
      by (auto simp: copyFileChangeMust_def getBeforeAfterDirs_def fatalif_eq same_but_stdout)
  qed
qed

definition snapshot_files :: "world \<Rightarrow> string \<Rightarrow> GitChange list \<Rightarrow> fpath set" where
  "snapshot_files w dir changes =
     (\<Union>c\<in>set changes. {before_file w dir c, after_file w dir c})"

lemma copyFiles_loop_frame:
  assumes "platform w = Windows" and "copyFiles_loop dir changes w = (r, w')"
  shows "same_but (snapshot_files w dir changes) w w'"
  using assms
proof (induction changes arbitrary: w)
  case Nil
  then show ?case by (simp add: same_but_refl)
next
  case (Cons c cs)
  obtain r1 w1 where c1: "copyFileChangeMust dir c w = (r1, w1)"
    by (cases "copyFileChangeMust dir c w") auto
  note F = copyFileChangeMust_frame[OF Cons.prems(1) c1]
  then have s1: "same_but {before_file w dir c, after_file w dir c} w w1" by simp
  show ?case
  proof (cases r1)
    case (Exit n)
    with c1 Cons.prems(2) have "w' = w1" by (simp add: seq_def)
    with s1 show ?thesis by (auto simp: snapshot_files_def intro: same_but_mono)
  next
    case (Ret u)
    with c1 Cons.prems(2) have l: "copyFiles_loop dir cs w1 = (r, w')" by (simp add: seq_def)
    have p1: "platform w1 = Windows" using s1 Cons.prems(1) by (simp add: same_but_def)
    have "snapshot_files w1 dir cs = snapshot_files w dir cs"
      using before_file_same[OF s1] after_file_same[OF s1] by (simp add: snapshot_files_def)
    with Cons.IH[OF p1 l] have "same_but (snapshot_files w dir cs) w1 w'" by simp
    from same_but_trans[OF s1 this] show ?thesis
      by (simp add: snapshot_files_def insert_commute Un_commute)
  qed
qed

text \<open>What \<^verbatim>\<open>os.MkdirAll\<close> may do to a world: add directories where nothing was.\<close>

definition grown :: "world \<Rightarrow> world \<Rightarrow> bool" where
  "grown w w' =
     (same_but UNIV w w'
      \<and> (\<forall>k. lookup w' k = lookup w k
               \<or> (lookup w k = None \<and> (\<exists>t. lookup w' k = Some (Dir t)))))"

lemma grown_refl: "grown w w"
  by (simp add: grown_def same_but_refl)

lemma grown_trans: "grown w w1 \<Longrightarrow> grown w1 w2 \<Longrightarrow> grown w w2"
  unfolding grown_def
  by (metis same_but_trans sup_top_left)

lemma grown_stdout: "grown w (w\<lparr>stdout := s\<rparr>)"
  by (simp add: grown_def same_but_stdout lookup_def)

lemma mkdirs_grown: "mkdirs ks w = (err, w') \<Longrightarrow> grown w w'"
proof (induction ks arbitrary: w)
  case Nil
  then show ?case by (simp add: grown_refl)
next
  case (Cons k ks)
  show ?case
  proof (cases "isFile w k \<or> isDir w k")
    case True
    with Cons show ?thesis by (auto simp: grown_refl split: if_splits)
  next
    case False
    with Cons.prems have "mkdirs ks (put k (Dir (now w)) w) = (err, w')" by simp
    from Cons.IH[OF this] have g: "grown (put k (Dir (now w)) w) w'" .
    have "lookup w k = None"
      using False by (auto simp: isFile_def isDir_def split: option.splits node.splits)
    then have "grown w (put k (Dir (now w)) w)"
      by (auto simp: grown_def lookup_put intro: same_but_mono[OF same_but_put])
    from grown_trans[OF this g] show ?thesis .
  qed
qed

lemma os_MkdirAll_grown: "os_MkdirAll p w = (err, w') \<Longrightarrow> grown w w'"
  by (auto simp: os_MkdirAll_def Let_def dest: mkdirs_grown)

lemma copyFiles_Ret:
  assumes "copyFiles dir changes w = (Ret (), w')"
  shows "\<exists>w2. grown w w2 \<and> copyFiles_loop dir changes w2 = (Ret (), w')"
proof -
  obtain e1 w1 where m1: "os_MkdirAll (filepath_Join (platform w) dir ''before'') w = (e1, w1)"
    by (cases "os_MkdirAll (filepath_Join (platform w) dir ''before'') w") auto
  obtain e2 w2 where m2: "os_MkdirAll (filepath_Join (platform w) dir ''after'') w1 = (e2, w2)"
    by (cases "os_MkdirAll (filepath_Join (platform w) dir ''after'') w1") auto
  have g: "grown w w2" using grown_trans[OF os_MkdirAll_grown[OF m1] os_MkdirAll_grown[OF m2]] .
  have "e1 = None" using assms m1
    by (cases e1) (auto simp: copyFiles_def getBeforeAfterDirs_def seq_def fataliferr_eq)
  moreover have "e2 = None" using assms m1 m2 calculation
    by (cases e2) (auto simp: copyFiles_def getBeforeAfterDirs_def seq_def fataliferr_eq)
  ultimately have "copyFiles_loop dir changes w2 = (Ret (), w')"
    using assms m1 m2 by (simp add: copyFiles_def getBeforeAfterDirs_def seq_def fataliferr_eq)
  with g show ?thesis by blast
qed

lemma isDir_not_isFile: "isDir w k \<Longrightarrow> \<not> isFile w k"
  by (auto simp: isDir_def isFile_def split: option.splits node.splits)

lemma mkdirs_existing: "\<forall>k\<in>set ks. isDir w k \<Longrightarrow> mkdirs ks w = (None, w)"
  by (induction ks) (auto simp: isDir_not_isFile)

lemma os_MkdirAll_existing:
  assumes "\<forall>k\<in>set (map (\<lambda>n. take n (resolve w p)) [1..<Suc (length (resolve w p))]). isDir w k"
  shows "os_MkdirAll p w = (None, w)"
  using mkdirs_existing[OF assms] by (simp add: os_MkdirAll_def Let_def)

lemma copyFiles_loop_added:
  assumes "platform w = Windows"
    and "copyFiles_loop dir changes w = (Ret (), w')"
    and "change \<in> set changes" and "Type change = Added"
    and "before_file w dir change \<noteq> after_file w dir change"
    and "\<forall>c\<in>set changes. c \<noteq> change \<longrightarrow>
           {before_file w dir c, after_file w dir c}
             \<inter> {before_file w dir change, after_file w dir change} = {}"
    and "resolve w (Path change) \<notin> snapshot_files w dir changes"
  shows "lookup w' (before_file w dir change) = Some (File [])
         \<and> (\<exists>c. lookup w (resolve w (Path change)) = Some (File c)
                \<and> lookup w' (after_file w dir change) = Some (File c))"
  using assms
proof (induction changes arbitrary: w)
  case Nil
  then show ?case by simp
next
  case (Cons c0 cs)
  let ?bk = "before_file w dir change" and ?ak = "after_file w dir change"
  let ?sk = "resolve w (Path change)"
  obtain r1 w1 where c1: "copyFileChangeMust dir c0 w = (r1, w1)"
    by (cases "copyFileChangeMust dir c0 w") auto
  have r1: "r1 = Ret ()" using c1 Cons.prems(2) by (cases r1) (auto simp: seq_def)
  with c1 Cons.prems(2) have l: "copyFiles_loop dir cs w1 = (Ret (), w')" by (simp add: seq_def)
  note F = copyFileChangeMust_frame[OF Cons.prems(1) c1]
  then have s1: "same_but {before_file w dir c0, after_file w dir c0} w w1" by simp
  have p1: "platform w1 = Windows" using s1 Cons.prems(1) by (simp add: same_but_def)
  have keys: "before_file w1 dir = before_file w dir" "after_file w1 dir = after_file w dir"
    "resolve w1 = resolve w"
    using before_file_same[OF s1] after_file_same[OF s1] resolve_same[OF s1] by auto
  have files: "snapshot_files w1 dir cs = snapshot_files w dir cs"
    by (simp add: snapshot_files_def keys)
  have sk0: "?sk \<notin> {before_file w dir c0, after_file w dir c0}"
    and sks: "?sk \<notin> snapshot_files w dir cs"
    using Cons.prems(7) by (auto simp: snapshot_files_def)
  have sk1: "lookup w1 ?sk = lookup w ?sk" using lookup_same[OF s1 sk0] .
  show ?case
  proof (cases "change \<in> set cs")
    case True
    have "lookup w' (before_file w1 dir change) = Some (File [])
         \<and> (\<exists>c. lookup w1 (resolve w1 (Path change)) = Some (File c)
                \<and> lookup w' (after_file w1 dir change) = Some (File c))"
      using Cons.prems(4,5,6) sks
      by (intro Cons.IH[OF p1 l True]) (auto simp: keys files)
    then show ?thesis by (simp add: keys sk1)
  next
    case False
    with Cons.prems(3) have c0: "c0 = change" by simp
    have "copyFileAddedMust (filepath_Join (platform w) dir ''before'')
           (filepath_Join (platform w) dir ''after'') change w = (Ret (), w1)"
      using c1 r1 c0 Cons.prems(4)
      by (simp add: copyFileChangeMust_def getBeforeAfterDirs_def)
    from copyFileAddedMust_sound[OF Cons.prems(1) this] Cons.prems(5) sk0 c0
    obtain c where post: "lookup w1 ?bk = Some (File [])" "lookup w ?sk = Some (File c)"
      "lookup w1 ?ak = Some (File c)"
      by auto
    have "same_but (snapshot_files w dir cs) w1 w'"
      using copyFiles_loop_frame[OF p1 l] by (simp add: files)
    moreover have "?bk \<notin> snapshot_files w dir cs" "?ak \<notin> snapshot_files w dir cs"
      using Cons.prems(6) False by (auto simp: snapshot_files_def)
    ultimately have "lookup w' ?bk = lookup w1 ?bk" "lookup w' ?ak = lookup w1 ?ak"
      by (auto dest: lookup_same)
    with post show ?thesis by simp
  qed
qed

lemma plain_before_after: "plain os ''before''" "plain os ''after''"
  by (cases os; simp add: plain_def rooted_def slash_def backslash_def)+

lemma snapshot_file_plain:
  assumes "plain (platform w) (Name c)"
  shows "before_file w dir c = resolve w dir @ [''before'', Name c]"
    and "after_file w dir c = resolve w dir @ [''after'', Name c]"
  using assms
  by (simp_all add: before_file_def after_file_def resolve_Join plain_before_after)

subsection \<open>What snapshot building leaves alone\<close>

text \<open>\<^verbatim>\<open>os.MkdirAll\<close> writes only at the path and the directories above it, so
  \<^verbatim>\<open>copyFiles\<close>, whether it returns or ends the process, writes only at the two
  directories, above them, and at the two files of each record.\<close>

lemma mkdirs_frame: "mkdirs ks w = (err, w') \<Longrightarrow> same_but (set ks) w w'"
proof (induction ks arbitrary: w)
  case Nil
  then show ?case by (simp add: same_but_refl)
next
  case (Cons k ks)
  show ?case
  proof (cases "isFile w k \<or> isDir w k")
    case True
    with Cons show ?thesis
      by (auto simp: same_but_refl split: if_splits intro: same_but_mono)
  next
    case False
    with Cons.prems have "mkdirs ks (put k (Dir (now w)) w) = (err, w')" by simp
    from same_but_trans[OF same_but_put Cons.IH[OF this]] show ?thesis by simp
  qed
qed

lemma os_MkdirAll_frame:
  assumes "os_MkdirAll p w = (err, w')"
  shows "same_but {k. prefix k (resolve w p)} w w'"
proof -
  from assms have "same_but (set (map (\<lambda>n. take n (resolve w p)) [1..<Suc (length (resolve w p))])) w w'"
    by (auto simp: os_MkdirAll_def Let_def dest: mkdirs_frame)
  then show ?thesis
    by (rule same_but_mono) (auto simp: take_is_prefix)
qed

definition snapshot_dirs :: "world \<Rightarrow> string \<Rightarrow> fpath set" where
  "snapshot_dirs w dir =
     {k. prefix k (resolve w (filepath_Join (platform w) dir ''before''))
         \<or> prefix k (resolve w (filepath_Join (platform w) dir ''after''))}"

lemma snapshot_files_same:
  "same_but K w w1 \<Longrightarrow> snapshot_files w1 dir changes = snapshot_files w dir changes"
  by (simp add: snapshot_files_def before_file_same[of K] after_file_same[of K])

lemma copyFiles_frame:
  assumes "platform w = Windows" and "copyFiles dir changes w = (r, w')"
  shows "same_but (snapshot_dirs w dir \<union> snapshot_files w dir changes) w w'"
proof -
  let ?b = "filepath_Join (platform w) dir ''before''"
  let ?a = "filepath_Join (platform w) dir ''after''"
  obtain e1 w1 where m1: "os_MkdirAll ?b w = (e1, w1)"
    by (cases "os_MkdirAll ?b w") auto
  obtain e2 w2 where m2: "os_MkdirAll ?a w1 = (e2, w2)"
    by (cases "os_MkdirAll ?a w1") auto
  note f1 = os_MkdirAll_frame[OF m1]
  note f2 = os_MkdirAll_frame[OF m2, unfolded resolve_same[OF f1]]
  have p1: "platform w1 = platform w" using f1 by (simp add: same_but_def)
  have f12: "same_but (snapshot_dirs w dir) w w2"
    using same_but_trans[OF f1 f2] by (rule same_but_mono) (auto simp: snapshot_dirs_def)
  have p2: "platform w2 = Windows" using f12 assms(1) by (simp add: same_but_def)
  show ?thesis
  proof (cases e1)
    case (Some e)
    then have "w' = snd (fataliferr (Some e) w1)"
      using assms(2) m1 by (simp add: copyFiles_def getBeforeAfterDirs_def seq_def fataliferr_eq)
    then have "same_but {} w1 w'"
      by (simp add: fataliferr_eq same_but_stdout)
    from same_but_trans[OF f1 this] show ?thesis
      by (rule same_but_mono) (auto simp: snapshot_dirs_def)
  next
    case None
    note n1 = this
    show ?thesis
    proof (cases e2)
      case (Some e)
      then have "w' = snd (fataliferr (Some e) w2)"
        using assms(2) m1 m2 n1 p1
        by (simp add: copyFiles_def getBeforeAfterDirs_def seq_def fataliferr_eq)
      then have "same_but {} w2 w'"
        by (simp add: fataliferr_eq same_but_stdout)
      from same_but_trans[OF f12 this] show ?thesis
        by (rule same_but_mono) auto
    next
      case None
      then have "copyFiles_loop dir changes w2 = (r, w')"
        using assms(2) m1 m2 n1 p1
        by (simp add: copyFiles_def getBeforeAfterDirs_def seq_def fataliferr_eq)
      from copyFiles_loop_frame[OF p2 this]
      have "same_but (snapshot_files w dir changes) w2 w'"
        by (simp add: snapshot_files_same[OF f12])
      from same_but_trans[OF f12 this] show ?thesis .
    qed
  qed
qed

lemma copyFiles_other_name:
  assumes "platform w = Windows" and "copyFiles dir changes w = (r, w')"
    and "\<forall>c\<in>set changes. plain Windows (Name c) \<and> Name c \<noteq> n" and "plain Windows n"
    and "side = ''before'' \<or> side = ''after''"
  shows "lookup w' (resolve w dir @ [side, n]) = lookup w (resolve w dir @ [side, n])"
proof -
  let ?k = "resolve w dir @ [side, n]"
  have "?k \<notin> snapshot_dirs w dir"
    by (auto simp: snapshot_dirs_def resolve_Join plain_before_after dest: prefix_length_le)
  moreover have "?k \<notin> snapshot_files w dir changes"
    using assms(1,3) by (auto simp: snapshot_files_def snapshot_file_plain)
  ultimately show ?thesis
    using copyFiles_frame[OF assms(1,2)] by (simp add: same_but_def)
qed

section \<open>The retention sweep\<close>

text \<open>\<open>sweep\<close> is one run of \<^verbatim>\<open>deleteOldDirs\<close>, whether it returns or ends the process: the
  world it leaves. \<open>scratch_root\<close> is the resolved \<^verbatim>\<open>tempDir\<close>; an entry of it is old when it
  is a directory modified more than a day before \<open>now\<close>; a path is swept when it is at or
  below an old entry of the scratch root.\<close>

definition sweep :: "world \<Rightarrow> world" where
  "sweep w = snd (deleteOldDirs w)"

definition old_dir :: "world \<Rightarrow> fpath \<Rightarrow> bool" where
  "old_dir w k = (case lookup w k of Some (Dir t) \<Rightarrow> time_Sub (now w) t > day | _ \<Rightarrow> False)"

lemma map_of_filter_key:
  "map_of (filter (\<lambda>(p, n). P p) xs) k = (if P k then map_of xs k else None)"
  by (induction xs) auto

lemma os_RemoveAll_eq:
  "os_RemoveAll path w = (None, w\<lparr>fs := filter (\<lambda>(p, n). \<not> prefix (resolve w path) p) (fs w)\<rparr>)"
  by (simp add: os_RemoveAll_def Let_def)

lemma resolve_fs_stdout [simp]:
  "resolve (w\<lparr>fs := f\<rparr>) p = resolve w p" "resolve (w\<lparr>stdout := s\<rparr>) p = resolve w p"
  by (simp_all add: resolve_def)

lemma deleteOldDirs_loop_effect:
  assumes "\<forall>fi\<in>set files. plain (platform w) (fi_Name fi)"
  shows "\<exists>s. deleteOldDirs_loop files w =
           (Ret (), w\<lparr>stdout := s,
              fs := filter (\<lambda>(p, n). \<not> (\<exists>fi\<in>set files. fi_IsDir fi
                        \<and> time_Sub (now w) (fi_ModTime fi) > day
                        \<and> prefix (resolve w (tempDir w) @ [fi_Name fi]) p)) (fs w)\<rparr>)"
  using assms
proof (induction files arbitrary: w)
  case Nil
  have "w = w\<lparr>stdout := stdout w, fs := fs w\<rparr>" by simp
  then show ?case by (auto intro: exI[of _ "stdout w"])
next
  case (Cons fi files)
  let ?k = "resolve w (tempDir w) @ [fi_Name fi]"
  let ?path = "filepath_Join (platform w) (tempDir w) (fi_Name fi)"
  have k: "resolve w ?path = ?k" using Cons.prems by (simp add: resolve_Join)
  let ?Q = "\<lambda>w. (\<lambda>(p, n :: node). \<not> (\<exists>fi\<in>set files. fi_IsDir fi
                        \<and> time_Sub (now w) (fi_ModTime fi) > day
                        \<and> prefix (resolve w (tempDir w) @ [fi_Name fi]) p))"
  show ?case
  proof (cases "fi_IsDir fi \<and> time_Sub (now w) (fi_ModTime fi) > day")
    case False
    define w1 where "w1 = (if fi_IsDir fi
        then w\<lparr>stdout := stdout w @ [Print fmt_not_deleting
                 [PStr ?path, PDuration (time_Sub (now w) (fi_ModTime fi))]]\<rparr> else w)"
    have step: "deleteOldDirs_loop (fi # files) w = deleteOldDirs_loop files w1"
      using False by (auto simp: w1_def Let_def seq_def Printf_eq)
    have pl: "\<forall>fi\<in>set files. plain (platform w1) (fi_Name fi)"
      using Cons.prems by (simp add: w1_def)
    from Cons.IH[OF pl] obtain s where
      "deleteOldDirs_loop files w1 = (Ret (), w1\<lparr>stdout := s, fs := filter (?Q w1) (fs w1)\<rparr>)"
      by blast
    moreover have "w1\<lparr>stdout := s, fs := filter (?Q w1) (fs w1)\<rparr>
        = w\<lparr>stdout := s, fs := filter (?Q w) (fs w)\<rparr>"
      by (simp add: w1_def)
    moreover have "filter (?Q w) (fs w) =
        filter (\<lambda>(p, n). \<not> (\<exists>fi\<in>set (fi # files). fi_IsDir fi
                        \<and> time_Sub (now w) (fi_ModTime fi) > day
                        \<and> prefix (resolve w (tempDir w) @ [fi_Name fi]) p)) (fs w)"
      using False by (intro filter_cong) auto
    ultimately show ?thesis using step by auto
  next
    case True
    define w1 where "w1 = w\<lparr>stdout := stdout w @ [Print fmt_deleting [PStr ?path]]\<rparr>"
    define w2 where "w2 = w1\<lparr>fs := filter (\<lambda>(p, n). \<not> prefix ?k p) (fs w1)\<rparr>"
    have "os_RemoveAll ?path w1 = (None, w2)"
      using k by (simp add: os_RemoveAll_eq w1_def w2_def)
    then have step: "deleteOldDirs_loop (fi # files) w = deleteOldDirs_loop files w2"
      using True by (simp add: Let_def seq_def Printf_eq w1_def[symmetric] fataliferr_eq)
    have pl: "\<forall>fi\<in>set files. plain (platform w2) (fi_Name fi)"
      using Cons.prems by (simp add: w1_def w2_def)
    from Cons.IH[OF pl] obtain s where
      "deleteOldDirs_loop files w2 = (Ret (), w2\<lparr>stdout := s, fs := filter (?Q w2) (fs w2)\<rparr>)"
      by blast
    moreover have "w2\<lparr>stdout := s, fs := filter (?Q w2) (fs w2)\<rparr>
        = w\<lparr>stdout := s, fs := filter (?Q w) (filter (\<lambda>(p, n). \<not> prefix ?k p) (fs w))\<rparr>"
      by (simp add: w1_def w2_def)
    moreover have "filter (?Q w) (filter (\<lambda>(p, n). \<not> prefix ?k p) (fs w)) =
        filter (\<lambda>(p, n). \<not> (\<exists>fi\<in>set (fi # files). fi_IsDir fi
                        \<and> time_Sub (now w) (fi_ModTime fi) > day
                        \<and> prefix (resolve w (tempDir w) @ [fi_Name fi]) p)) (fs w)"
      using True unfolding filter_filter by (intro filter_cong) auto
    ultimately show ?thesis using step by auto
  qed
qed

lemma info_Name [simp]: "fi_Name (info w k n) = n"
  by (simp add: info_def split: option.splits node.splits)

lemma info_old:
  "(fi_IsDir (info w k n) \<and> time_Sub (now w) (fi_ModTime (info w k n)) > day \<and> Q)
     = (old_dir w (k @ [n]) \<and> Q)"
  by (simp add: info_def old_dir_def split: option.splits node.splits)

lemma old_dir_cong:
  "lookup w' k = lookup w k \<Longrightarrow> now w' = now w \<Longrightarrow> old_dir w' k = old_dir w k"
  by (simp add: old_dir_def split: option.splits node.splits)

definition scratch_root :: "world \<Rightarrow> fpath" where
  "scratch_root w = resolve w (tempDir w)"

definition swept :: "world \<Rightarrow> fpath \<Rightarrow> bool" where
  "swept w p =
     (isDir w (scratch_root w)
      \<and> (\<exists>name\<in>set (entries w (scratch_root w)).
            old_dir w (scratch_root w @ [name]) \<and> prefix (scratch_root w @ [name]) p))"

lemma sweep_effect:
  assumes "\<forall>name\<in>set (entries w (scratch_root w)). plain (platform w) name"
  shows "\<exists>s. sweep w = w\<lparr>stdout := s, fs := filter (\<lambda>(p, n). \<not> swept w p) (fs w)\<rparr>"
proof (cases "isDir w (scratch_root w)")
  case False
  then have e: "sweep w = w\<lparr>stdout := stdout w @ [Print (''%s'' @ [newline])
                 [PError (NotDir (tempDir w))], Stack]\<rparr>"
    by (simp add: sweep_def deleteOldDirs_def seq_def ioutil_ReadDir_def Let_def
          fataliferr_val_eq scratch_root_def)
  have f: "filter (\<lambda>(p, n). \<not> swept w p) (fs w) = fs w"
    using False by (simp add: swept_def)
  show ?thesis
    by (rule exI[of _ "stdout w @ [Print (''%s'' @ [newline])
                 [PError (NotDir (tempDir w))], Stack]"]) (simp add: e f)
next
  case True
  let ?files = "map (info w (scratch_root w)) (entries w (scratch_root w))"
  have rd: "ioutil_ReadDir (tempDir w) w = (Inr ?files, w)"
    using True by (simp add: ioutil_ReadDir_def Let_def scratch_root_def)
  have pl: "\<forall>fi\<in>set ?files. plain (platform w) (fi_Name fi)" using assms by simp
  from deleteOldDirs_loop_effect[OF pl] obtain s where
    l: "deleteOldDirs_loop ?files w =
           (Ret (), w\<lparr>stdout := s,
              fs := filter (\<lambda>(p, n). \<not> (\<exists>fi\<in>set ?files. fi_IsDir fi
                        \<and> time_Sub (now w) (fi_ModTime fi) > day
                        \<and> prefix (resolve w (tempDir w) @ [fi_Name fi]) p)) (fs w)\<rparr>)"
    by blast
  have "filter (\<lambda>(p, n). \<not> (\<exists>fi\<in>set ?files. fi_IsDir fi
                        \<and> time_Sub (now w) (fi_ModTime fi) > day
                        \<and> prefix (resolve w (tempDir w) @ [fi_Name fi]) p)) (fs w)
        = filter (\<lambda>(p, n). \<not> swept w p) (fs w)"
    using True by (simp only: set_map bex_simps info_old info_Name swept_def scratch_root_def) simp
  with l rd show ?thesis
    by (auto simp: sweep_def deleteOldDirs_def seq_def fataliferr_val_eq)
qed

lemma sweep_lookup:
  assumes "\<forall>name\<in>set (entries w (scratch_root w)). plain (platform w) name"
  shows "lookup (sweep w) k = (if swept w k then None else lookup w k)"
proof -
  from sweep_effect[OF assms] obtain s where
    "sweep w = w\<lparr>stdout := s, fs := filter (\<lambda>(p, n). \<not> swept w p) (fs w)\<rparr>"
    by blast
  then show ?thesis by (simp add: lookup_def map_of_filter_key)
qed

lemma sweep_same:
  assumes "\<forall>name\<in>set (entries w (scratch_root w)). plain (platform w) name"
  shows "platform (sweep w) = platform w" "now (sweep w) = now w"
    "scratch_root (sweep w) = scratch_root w"
    "set (entries (sweep w) k) \<subseteq> set (entries w k)"
proof -
  from sweep_effect[OF assms] obtain s where
    e: "sweep w = w\<lparr>stdout := s, fs := filter (\<lambda>(p, n). \<not> swept w p) (fs w)\<rparr>"
    by blast
  show "platform (sweep w) = platform w" "now (sweep w) = now w"
    "scratch_root (sweep w) = scratch_root w"
    by (simp_all add: e scratch_root_def)
  show "set (entries (sweep w) k) \<subseteq> set (entries w k)"
    by (auto simp: e entries_def)
qed

lemma sweep_plain:
  assumes "\<forall>name\<in>set (entries w (scratch_root w)). plain (platform w) name"
  shows "\<forall>name\<in>set (entries (sweep w) (scratch_root (sweep w))). plain (platform (sweep w)) name"
  using assms sweep_same[OF assms] by auto

lemma swept_child:
  "swept w (scratch_root w @ [name]) \<Longrightarrow> old_dir w (scratch_root w @ [name])"
  by (auto simp: swept_def)

lemma sweep_keeps:
  assumes "\<forall>name\<in>set (entries w (scratch_root w)). plain (platform w) name"
    and "\<not> old_dir w (scratch_root w @ [name])"
  shows "lookup (sweep w) (scratch_root w @ [name]) = lookup w (scratch_root w @ [name])"
  using assms(2) swept_child[of w name] by (auto simp: sweep_lookup[OF assms(1)])

lemma sweeps_keep:
  assumes "\<forall>name\<in>set (entries w (scratch_root w)). plain (platform w) name"
    and "\<not> old_dir w (scratch_root w @ [name])"
  shows "lookup ((sweep ^^ n) w) (scratch_root w @ [name]) = lookup w (scratch_root w @ [name])
         \<and> (\<forall>name\<in>set (entries ((sweep ^^ n) w) (scratch_root w)).
               plain (platform ((sweep ^^ n) w)) name)
         \<and> now ((sweep ^^ n) w) = now w \<and> scratch_root ((sweep ^^ n) w) = scratch_root w"
proof (induction n)
  case 0
  then show ?case using assms(1) by simp
next
  case (Suc n)
  let ?w = "(sweep ^^ n) w"
  from Suc have pl: "\<forall>name\<in>set (entries ?w (scratch_root ?w)). plain (platform ?w) name"
    and lk: "lookup ?w (scratch_root w @ [name]) = lookup w (scratch_root w @ [name])"
    and nw: "now ?w = now w" and sr: "scratch_root ?w = scratch_root w"
    by simp_all
  have "\<not> old_dir ?w (scratch_root ?w @ [name])"
    using assms(2) old_dir_cong[OF lk nw] by (simp add: sr)
  from sweep_keeps[OF pl this]
  have 1: "lookup (sweep ?w) (scratch_root w @ [name]) = lookup w (scratch_root w @ [name])"
    by (simp add: sr lk)
  have 2: "now (sweep ?w) = now w" "scratch_root (sweep ?w) = scratch_root w"
    using sweep_same(2,3)[OF pl] nw sr by simp_all
  have 3: "\<forall>name\<in>set (entries (sweep ?w) (scratch_root w)). plain (platform (sweep ?w)) name"
    using sweep_plain[OF pl] 2 by simp
  show ?case using 1 2 3 by simp
qed

lemma sweep_idem:
  assumes "\<forall>name\<in>set (entries w (scratch_root w)). plain (platform w) name"
  shows "fs (sweep (sweep w)) = fs (sweep w)"
proof -
  let ?w = "sweep w"
  have pl: "\<forall>name\<in>set (entries ?w (scratch_root ?w)). plain (platform ?w) name"
    by (rule sweep_plain[OF assms])
  from sweep_effect[OF pl] obtain s where
    e: "sweep ?w = ?w\<lparr>stdout := s, fs := filter (\<lambda>(p, n). \<not> swept ?w p) (fs ?w)\<rparr>"
    by blast
  have "\<not> swept ?w p" if "(p, n) \<in> set (fs ?w)" for p n
  proof
    assume "swept ?w p"
    then obtain name where nm: "name \<in> set (entries ?w (scratch_root ?w))"
      and od: "old_dir ?w (scratch_root ?w @ [name])"
      and pr: "prefix (scratch_root ?w @ [name]) p" and d: "isDir ?w (scratch_root ?w)"
      by (auto simp: swept_def)
    have sr: "scratch_root ?w = scratch_root w" and nw: "now ?w = now w"
      using sweep_same[OF assms] by simp_all
    have "lookup ?w (scratch_root w @ [name]) \<noteq> None"
      using od by (auto simp: old_dir_def sr split: option.splits)
    then have ns: "\<not> swept w (scratch_root w @ [name])"
      and lk: "lookup ?w (scratch_root w @ [name]) = lookup w (scratch_root w @ [name])"
      using sweep_lookup[OF assms, of "scratch_root w @ [name]"] by (auto split: if_splits)
    have od0: "old_dir w (scratch_root w @ [name])"
      using od old_dir_cong[OF lk nw] by (simp add: sr)
    have "name \<in> set (entries w (scratch_root w))"
      using nm sweep_same(4)[OF assms] sr by auto
    moreover have "isDir w (scratch_root w)"
    proof (rule ccontr)
      assume "\<not> isDir w (scratch_root w)"
      then have "\<And>k. \<not> swept w k" by (simp add: swept_def)
      then have "lookup ?w = lookup w" using sweep_lookup[OF assms] by auto
      with d sr \<open>\<not> isDir w (scratch_root w)\<close> show False by (simp add: isDir_def)
    qed
    ultimately have "swept w p" using od0 pr sr by (auto simp: swept_def)
    moreover from sweep_effect[OF assms] obtain s' where
      e0: "?w = w\<lparr>stdout := s', fs := filter (\<lambda>(p, n). \<not> swept w p) (fs w)\<rparr>"
      by blast
    have "fs ?w = fs (w\<lparr>stdout := s', fs := filter (\<lambda>(p, n). \<not> swept w p) (fs w)\<rparr>)"
      by (simp only: e0)
    then have "fs ?w = filter (\<lambda>(p, n). \<not> swept w p) (fs w)" by simp
    ultimately show False using that by auto
  qed
  then have "filter (\<lambda>(p, n). \<not> swept ?w p) (fs ?w) = fs ?w"
    by (intro filter_True) auto
  then show ?thesis by (simp add: e)
qed

section \<open>A small world for the examples\<close>

text \<open>A Windows machine: the repository \<^verbatim>\<open>C:\repo\<close> holds \<^verbatim>\<open>src\a.go\<close> (modified) and
  \<^verbatim>\<open>src\b.go\<close> (new); \<^verbatim>\<open>src\c.go\<close> is in the last commit and has been deleted from the
  working tree. The scratch root holds an old and a young snapshot directory and a file.
  The snapshot directory \<^verbatim>\<open>C:\Temp\sum-diff-preview\run\<close> of the examples exists with its
  \<^verbatim>\<open>before\<close> and \<^verbatim>\<open>after\<close> directories.\<close>

abbreviation demo_root :: fpath where
  "demo_root \<equiv> [''C:'', ''Temp'', ''sum-diff-preview'']"

definition demo_tempDir :: string where
  "demo_tempDir = ''C:'' @ [backslash] @ ''Temp'' @ [backslash] @ ''sum-diff-preview''"

definition demo_dir :: string where
  "demo_dir = demo_tempDir @ [backslash] @ ''run''"

definition demo_world :: world where
  "demo_world = \<lparr>
     platform = Windows,
     fs = [([''C:''], Dir 0),
           ([''C:'', ''repo''], Dir 0),
           ([''C:'', ''repo'', ''.git''], Dir 0),
           ([''C:'', ''repo'', ''src''], Dir 0),
           ([''C:'', ''repo'', ''src'', ''a.go''], File ''a2''),
           ([''C:'', ''repo'', ''src'', ''b.go''], File ''new''),
           ([''C:'', ''Temp''], Dir 0),
           (demo_root, Dir 0),
           (demo_root @ [''old''], Dir 5),
           (demo_root @ [''old'', ''before''], Dir 5),
           (demo_root @ [''young''], Dir (10 + day)),
           (demo_root @ [''note.txt''], File ''x''),
           (demo_root @ [''run''], Dir (10 + day)),
           (demo_root @ [''run'', ''before''], Dir (10 + day)),
           (demo_root @ [''run'', ''after''], Dir (10 + day))],
     cwd = ''C:'' @ [backslash] @ ''repo'',
     environ = (\<lambda>v. if v = ''TEMP'' then ''C:'' @ [backslash] @ ''Temp'' else []),
     lookPath = (\<lambda>n. if n = ''git'' then Some ''git.exe''
                     else if n = ''WinMergeU'' then Some ''WinMergeU.exe'' else None),
     now = 20 + day,
     time_Format = (\<lambda>t. ''2024-01-01_00_00_00''),
     cmd_Output = (\<lambda>exe args.
        if exe = ''git.exe'' \<and> args = [''status'', ''--porcelain''] then Some []
        else if exe = ''git.exe'' \<and> args = [''show'', ''HEAD:src/a.go''] then Some ''a1''
        else if exe = ''git.exe'' \<and> args = [''show'', ''HEAD:src/c.go''] then Some ''gone''
        else if exe = ''WinMergeU.exe'' then Some []
        else None),
     stdout = [], cmds = [],
     gitPath = ''git.exe'', winMergePath = ''WinMergeU.exe'', tempDir = demo_tempDir\<rparr>"

lemma demo_platform: "platform demo_world = Windows"
  by (simp add: demo_world_def)

lemma demo_resolve:
  "resolve demo_world ''src/b.go'' = [''C:'', ''repo'', ''src'', ''b.go'']"
  "resolve demo_world ''src/c.go'' = [''C:'', ''repo'', ''src'', ''c.go'']"
  "resolve demo_world demo_dir = demo_root @ [''run'']"
  "resolve demo_world demo_tempDir = demo_root"
  by code_simp+

lemma demo_lookup:
  "lookup demo_world [''C:'', ''repo'', ''src'', ''b.go''] = Some (File ''new'')"
  "lookup demo_world [''C:'', ''repo'', ''src'', ''c.go''] = None"
  "lookup demo_world (demo_root @ [''run'', ''before'']) = Some (Dir (10 + day))"
  "lookup demo_world (demo_root @ [''run'', ''after'']) = Some (Dir (10 + day))"
  "lookup demo_world (demo_root @ [''run'', ''before'', n]) = None"
  "lookup demo_world (demo_root @ [''run'', ''after'', n]) = None"
  by (simp_all add: lookup_def demo_world_def)

lemmas demo_lookup_flat = demo_lookup[unfolded append.simps]

definition demo_added :: GitChange where
  "demo_added = \<lparr>Type = Added, Path = ''src/b.go'', Name = ''b.go''\<rparr>"

definition demo_deleted :: GitChange where
  "demo_deleted = \<lparr>Type = Deleted, Path = ''src/c.go'', Name = ''c.go''\<rparr>"

lemma demo_plain: "plain Windows ''b.go''" "plain Windows ''c.go''" "plain Windows ''run''"
  by (simp_all add: plain_def rooted_def slash_def backslash_def)

lemma demo_files:
  "before_file demo_world demo_dir c = resolve demo_world
     (filepath_Join Windows (filepath_Join Windows demo_dir ''before'') (Name c))"
  "after_file demo_world demo_dir c = resolve demo_world
     (filepath_Join Windows (filepath_Join Windows demo_dir ''after'') (Name c))"
  by (simp_all add: before_file_def after_file_def demo_platform)

lemma demo_snapshot_files:
  assumes "plain Windows (Name c)"
  shows "before_file demo_world demo_dir c = demo_root @ [''run'', ''before'', Name c]"
    and "after_file demo_world demo_dir c = demo_root @ [''run'', ''after'', Name c]"
  using snapshot_file_plain[of demo_world c demo_dir] assms
  by (simp_all add: demo_platform demo_resolve)

lemma demo_isDir:
  "isDir demo_world (demo_root @ [''run'', ''before''])"
  "isDir demo_world (demo_root @ [''run'', ''after''])"
  "\<not> isDir demo_world (demo_root @ [''run'', ''before'', n])"
  "\<not> isDir demo_world (demo_root @ [''run'', ''after'', n])"
  using demo_lookup by (simp_all add: isDir_def)

lemmas demo_isDir_flat = demo_isDir[unfolded append.simps]

lemma demo_added_ok:
  "copyFileChangeMust demo_dir demo_added demo_world =
     (Ret (), put (demo_root @ [''run'', ''after'', ''b.go'']) (File ''new'')
               (put (demo_root @ [''run'', ''after'', ''b.go'']) (File [])
                 (put (demo_root @ [''run'', ''before'', ''b.go'']) (File []) demo_world)))"
proof -
  have n: "plain Windows (Name demo_added)" by (simp add: demo_added_def demo_plain)
  have "copyFileChangeMust demo_dir
          \<lparr>Type = Added, Path = Path demo_added, Name = Name demo_added\<rparr> demo_world =
     (Ret (), put (demo_root @ [''run'', ''after'', ''b.go'']) (File ''new'')
               (put (demo_root @ [''run'', ''after'', ''b.go'']) (File [])
                 (put (demo_root @ [''run'', ''before'', ''b.go'']) (File []) demo_world)))"
  proof (rule copyFileAddedMust_ok[OF demo_platform])
    show "demo_root @ [''run'', ''before'', ''b.go''] = before_file demo_world demo_dir demo_added"
      using demo_snapshot_files(1)[OF n] by (simp add: demo_added_def)
    show "demo_root @ [''run'', ''after'', ''b.go''] = after_file demo_world demo_dir demo_added"
      using demo_snapshot_files(2)[OF n] by (simp add: demo_added_def)
    show "[''C:'', ''repo'', ''src'', ''b.go''] = resolve demo_world (Path demo_added)"
      by (simp add: demo_added_def demo_resolve)
    show "lookup demo_world [''C:'', ''repo'', ''src'', ''b.go''] = Some (File ''new'')"
      by (rule demo_lookup)
  qed (use demo_isDir in \<open>simp_all add: butlast_append\<close>)
  then show ?thesis by (simp add: demo_added_def)
qed

lemma demo_copyFiles_ok:
  "\<exists>w'. copyFiles demo_dir [demo_added] demo_world = (Ret (), w')"
proof -
  have b: "resolve demo_world (filepath_Join Windows demo_dir ''before'') = demo_root @ [''run'', ''before'']"
    and a: "resolve demo_world (filepath_Join Windows demo_dir ''after'') = demo_root @ [''run'', ''after'']"
    using resolve_Join[of demo_world "''before''" demo_dir]
      resolve_Join[of demo_world "''after''" demo_dir]
    by (simp_all add: demo_platform plain_before_after demo_resolve)
  have d: "\<forall>k\<in>set (map (\<lambda>n. take n (demo_root @ [''run'', x])) [1..<Suc (length (demo_root @ [''run'', x]))]).
             isDir demo_world k" if "x = ''before'' \<or> x = ''after''" for x
    using that by (auto simp: isDir_def lookup_def demo_world_def upt_rec)
  have 1: "os_MkdirAll (filepath_Join Windows demo_dir ''before'') demo_world = (None, demo_world)"
    using d[of "''before''"] by (intro os_MkdirAll_existing) (simp add: b)
  have 2: "os_MkdirAll (filepath_Join Windows demo_dir ''after'') demo_world = (None, demo_world)"
    using d[of "''after''"] by (intro os_MkdirAll_existing) (simp add: a)
  show ?thesis
    by (simp add: copyFiles_def getBeforeAfterDirs_def demo_platform seq_def 1 2 fataliferr_eq
          demo_added_ok)
qed

section \<open>Properties of the snapshot builder and of the viewer call\<close>



text \<open>
  \<^bold>\<open>C1.\<close> \<^verbatim>\<open>copyFileChangeMust\<close> sends a Deleted record to \<^verbatim>\<open>copyFileModifiedMust\<close>, which
  first copies the working-tree file to \<^verbatim>\<open>after/<Name>\<close>. In the small world
  \<^verbatim>\<open>src/c.go\<close> is deleted from the working tree and \<^verbatim>\<open>git show HEAD:src/c.go\<close> prints its last
  committed content: the run ends with status 1 and \<^verbatim>\<open>before/c.go\<close> is never written.
  (\<open>copyFileDeletedMust_sound\<close> above is what the function the source does not call
  would have done.)
\<close>

theorem deleted_record_example:
  "fst (copyFileChangeMust demo_dir demo_deleted demo_world) = Exit 1
   \<and> lookup (snd (copyFileChangeMust demo_dir demo_deleted demo_world))
         (demo_root @ [''run'', ''before'', ''c.go'']) = None
   \<and> head_content demo_world demo_deleted = Some ''gone''"
proof -
  obtain r w' where c: "copyFileChangeMust demo_dir demo_deleted demo_world = (r, w')"
    by (cases "copyFileChangeMust demo_dir demo_deleted demo_world") auto
  then have m: "copyFileModifiedMust (filepath_Join (platform demo_world) demo_dir ''before'')
           (filepath_Join (platform demo_world) demo_dir ''after'') demo_deleted demo_world = (r, w')"
    by (simp add: copyFileChangeMust_def getBeforeAfterDirs_def demo_deleted_def
          Added_def Modified_def Deleted_def)
  have n: "plain Windows (Name demo_deleted)" by (simp add: demo_deleted_def demo_plain)
  have k: "before_file demo_world demo_dir demo_deleted = demo_root @ [''run'', ''before'', ''c.go'']"
    "after_file demo_world demo_dir demo_deleted = demo_root @ [''run'', ''after'', ''c.go'']"
    "resolve demo_world (Path demo_deleted) = [''C:'', ''repo'', ''src'', ''c.go'']"
    using demo_snapshot_files[OF n] by (simp_all add: demo_deleted_def demo_resolve)
  have nf: "\<not> isFile demo_world [''C:'', ''repo'', ''src'', ''c.go'']"
    by (simp add: isFile_def demo_lookup)
  from copyFileModifiedMust_sound[OF demo_platform m] nf
  have "r = Exit 1" "lookup w' (demo_root @ [''run'', ''before'', ''c.go''])
          = lookup demo_world (demo_root @ [''run'', ''before'', ''c.go''])"
    by (simp_all add: k)
  moreover have "head_content demo_world demo_deleted = Some ''gone''"
    by (simp add: head_content_def demo_deleted_def demo_world_def)
  ultimately show ?thesis by (simp add: c demo_lookup_flat)
qed

text \<open>
  \<^bold>\<open>C2\<close>, as stated, has an Untracked record handled as an Added one. A parse that is
  asked to keep untracked files returns the record, but the \<^verbatim>\<open>switch\<close> of
  \<^verbatim>\<open>copyFileChangeMust\<close> has no case for \<^verbatim>\<open>NotCheckedIn\<close>: the run ends with status 1 and
  writes no file, where the same file as an Added record is copied.
\<close>

theorem untracked_record_counterexample:
  "parseGitStatusMust Windows ''?? src/b.go'' True =
     Inr [\<lparr>Type = NotCheckedIn, Path = ''src/b.go'', Name = ''b.go''\<rparr>]
   \<and> fst (copyFileChangeMust demo_dir
            \<lparr>Type = NotCheckedIn, Path = ''src/b.go'', Name = ''b.go''\<rparr> demo_world) = Exit 1
   \<and> lookup (snd (copyFileChangeMust demo_dir
            \<lparr>Type = NotCheckedIn, Path = ''src/b.go'', Name = ''b.go''\<rparr> demo_world))
        (demo_root @ [''run'', ''before'', ''b.go'']) = None
   \<and> fst (copyFileChangeMust demo_dir
            \<lparr>Type = Added, Path = ''src/b.go'', Name = ''b.go''\<rparr> demo_world) = Ret ()"
proof -
  have 1: "parseGitStatusMust Windows ''?? src/b.go'' True =
     Inr [\<lparr>Type = NotCheckedIn, Path = ''src/b.go'', Name = ''b.go''\<rparr>]"
    by code_simp
  have 2: "copyFileChangeMust demo_dir
            \<lparr>Type = NotCheckedIn, Path = ''src/b.go'', Name = ''b.go''\<rparr> demo_world =
           (Exit 1, demo_world\<lparr>stdout := stdout demo_world @
              [Print fmt_unknown_change
                 [PChange \<lparr>Type = NotCheckedIn, Path = ''src/b.go'', Name = ''b.go''\<rparr>], Stack]\<rparr>)"
    by (rule copyFileChangeMust_unknown)
       (simp_all add: NotCheckedIn_def Added_def Modified_def Deleted_def)
  have 3: "lookup (demo_world\<lparr>stdout := x\<rparr>) k = lookup demo_world k" for x k
    by (simp add: lookup_def)
  show ?thesis using demo_added_ok
    by (simp add: 1 2 3 demo_lookup_flat demo_added_def)
qed

text \<open>
  \<^bold>\<open>C2\<close>, amended. A record of kind Untracked is not handled as an Added record: on
  any such record \<^verbatim>\<open>copyFileChangeMust\<close> prints \<^verbatim>\<open>unknown change\<close> with the record and a
  stack dump and ends the process with status 1; the files are left as they were.
\<close>

theorem untracked_record_aborts:
  assumes "Type change = NotCheckedIn"
  shows "copyFileChangeMust dir change w =
           (Exit 1, w\<lparr>stdout := stdout w @ [Print fmt_unknown_change [PChange change], Stack]\<rparr>)"
  using assms
  by (intro copyFileChangeMust_unknown)
     (simp_all add: NotCheckedIn_def Added_def Modified_def Deleted_def)

theorem untracked_record_aborts_witness:
  "copyFileChangeMust demo_dir \<lparr>Type = NotCheckedIn, Path = ''src/b.go'', Name = ''b.go''\<rparr>
     demo_world =
   (Exit 1, demo_world\<lparr>stdout := stdout demo_world @
      [Print fmt_unknown_change
         [PChange \<lparr>Type = NotCheckedIn, Path = ''src/b.go'', Name = ''b.go''\<rparr>], Stack]\<rparr>)"
  using untracked_record_aborts[of "\<lparr>Type = NotCheckedIn, Path = ''src/b.go'', Name = ''b.go''\<rparr>"
          demo_dir demo_world]
  by simp

text \<open>
  \<^bold>\<open>C3.\<close> The command line of the viewer: \<^verbatim>\<open>runWinMerge\<close> runs the viewer with the three
  flags \<^verbatim>\<open>/u\<close> (no entry in the list of recent paths), \<^verbatim>\<open>/wl\<close> and \<^verbatim>\<open>/wr\<close> (left and right
  side read-only), then the before directory and the after directory. The flag \<^verbatim>\<open>/r\<close>
  (recursive compare) of the comment above the call is not among them.
\<close>

theorem runWinMerge_command_line:
  "cmds (snd (runWinMerge dir w)) =
     cmds w @ [(winMergePath w,
                [''/u'', ''/wl'', ''/wr'',
                 filepath_Join (platform w) dir ''before'',
                 filepath_Join (platform w) dir ''after''])]"
  by (simp add: runWinMerge_def getBeforeAfterDirs_def seq_def fataliferr_val_eq runCmd_eq
         split: option.splits)

lemma scenario_names:
  "plain Windows ''a.go''" "plain Windows ''b.go''" "plain Windows ''c.go''" "plain Windows ''junk.go''"
  by (simp_all add: plain_def rooted_def slash_def backslash_def)

text \<open>
  \<^bold>\<open>C7.\<close> The scenario of the specification, parsed with \<open>includeNotCheckedIn = False\<close>
  on either platform, gives the three records of the tracked files, in input order, and
  no record for \<^verbatim>\<open>junk.go\<close>. Snapshot building on these records, on Windows, however it
  ends, leaves \<^verbatim>\<open>before/junk.go\<close> and \<^verbatim>\<open>after/junk.go\<close> of the snapshot directory as they
  were: no entry is made for the untracked file.
\<close>

theorem scenario_three_records:
  "(let recs = [\<lparr>Type = Modified, Path = ''src/a.go'', Name = ''a.go''\<rparr>,
                \<lparr>Type = Added, Path = ''src/b.go'', Name = ''b.go''\<rparr>,
                \<lparr>Type = Deleted, Path = ''src/c.go'', Name = ''c.go''\<rparr>];
        junk = \<lparr>Type = NotCheckedIn, Path = ''src/junk.go'', Name = ''junk.go''\<rparr>
    in parseGitStatusMust os scenario_status False = Inr recs
       \<and> (\<forall>w dir r w'. platform w = Windows \<and> copyFiles dir recs w = (r, w') \<longrightarrow>
             lookup w' (before_file w dir junk) = lookup w (before_file w dir junk)
             \<and> lookup w' (after_file w dir junk) = lookup w (after_file w dir junk)))"
proof -
  have "parseGitStatusMust os scenario_status False =
     Inr [\<lparr>Type = Modified, Path = ''src/a.go'', Name = ''a.go''\<rparr>,
          \<lparr>Type = Added, Path = ''src/b.go'', Name = ''b.go''\<rparr>,
          \<lparr>Type = Deleted, Path = ''src/c.go'', Name = ''c.go''\<rparr>]"
    by (cases os) (simp_all only: scenario_Windows scenario_Unix)
  moreover have "lookup w' (resolve w dir @ [side, ''junk.go'']) = lookup w (resolve w dir @ [side, ''junk.go''])"
    if "platform w = Windows"
      and "copyFiles dir [\<lparr>Type = Modified, Path = ''src/a.go'', Name = ''a.go''\<rparr>,
          \<lparr>Type = Added, Path = ''src/b.go'', Name = ''b.go''\<rparr>,
          \<lparr>Type = Deleted, Path = ''src/c.go'', Name = ''c.go''\<rparr>] w = (r, w')"
      and "side = ''before'' \<or> side = ''after''"
    for w dir r w' side
    using that(3) by (intro copyFiles_other_name[OF that(1,2)]) (simp_all add: scenario_names)
  ultimately show ?thesis
    by (simp add: Let_def snapshot_file_plain scenario_names)
qed

theorem scenario_three_records_witness:
  "parseGitStatusMust Windows scenario_status False =
     Inr [\<lparr>Type = Modified, Path = ''src/a.go'', Name = ''a.go''\<rparr>,
          \<lparr>Type = Added, Path = ''src/b.go'', Name = ''b.go''\<rparr>,
          \<lparr>Type = Deleted, Path = ''src/c.go'', Name = ''c.go''\<rparr>]
   \<and> platform demo_world = Windows
   \<and> lookup (snd (copyFiles demo_dir
         [\<lparr>Type = Modified, Path = ''src/a.go'', Name = ''a.go''\<rparr>,
          \<lparr>Type = Added, Path = ''src/b.go'', Name = ''b.go''\<rparr>,
          \<lparr>Type = Deleted, Path = ''src/c.go'', Name = ''c.go''\<rparr>] demo_world))
        (demo_root @ [''run'', ''before'', ''junk.go'']) = None
   \<and> lookup (snd (copyFiles demo_dir
         [\<lparr>Type = Modified, Path = ''src/a.go'', Name = ''a.go''\<rparr>,
          \<lparr>Type = Added, Path = ''src/b.go'', Name = ''b.go''\<rparr>,
          \<lparr>Type = Deleted, Path = ''src/c.go'', Name = ''c.go''\<rparr>] demo_world))
        (demo_root @ [''run'', ''after'', ''junk.go'']) = None"
proof -
  let ?recs = "[\<lparr>Type = Modified, Path = ''src/a.go'', Name = ''a.go''\<rparr>,
          \<lparr>Type = Added, Path = ''src/b.go'', Name = ''b.go''\<rparr>,
          \<lparr>Type = Deleted, Path = ''src/c.go'', Name = ''c.go''\<rparr>]"
  let ?junk = "\<lparr>Type = NotCheckedIn, Path = ''src/junk.go'', Name = ''junk.go''\<rparr>"
  note T = scenario_three_records[of Windows, unfolded Let_def]
  from T have P: "parseGitStatusMust Windows scenario_status False = Inr ?recs" by (rule conjunct1)
  have c: "platform demo_world = Windows
      \<and> copyFiles demo_dir ?recs demo_world
          = (fst (copyFiles demo_dir ?recs demo_world), snd (copyFiles demo_dir ?recs demo_world))"
    by (simp add: demo_platform)
  from T[THEN conjunct2, rule_format, OF c]
  have "lookup (snd (copyFiles demo_dir ?recs demo_world)) (before_file demo_world demo_dir ?junk)
          = lookup demo_world (before_file demo_world demo_dir ?junk)"
    and "lookup (snd (copyFiles demo_dir ?recs demo_world)) (after_file demo_world demo_dir ?junk)
          = lookup demo_world (after_file demo_world demo_dir ?junk)"
    by simp_all
  then have "lookup (snd (copyFiles demo_dir ?recs demo_world))
               (demo_root @ [''run'', ''before'', ''junk.go'']) = None"
    and "lookup (snd (copyFiles demo_dir ?recs demo_world))
               (demo_root @ [''run'', ''after'', ''junk.go'']) = None"
    by (simp_all add: snapshot_file_plain demo_platform scenario_names demo_resolve demo_lookup_flat)
  with P show ?thesis by (simp add: demo_platform)
qed

section \<open>Properties of the retention sweep\<close>


lemma entries_set:
  "set (entries w k) = (\<lambda>(p, n). last p) ` {(p, n) \<in> set (fs w). p \<noteq> [] \<and> butlast p = k}"
  by (auto simp: entries_def)

lemma demo_scratch_root: "scratch_root demo_world = demo_root"
proof -
  have "tempDir demo_world = demo_tempDir" by (simp add: demo_world_def)
  then show ?thesis by (simp add: scratch_root_def demo_resolve)
qed

lemma demo_entries: "entries demo_world demo_root = [''note.txt'', ''old'', ''run'', ''young'']"
  by code_simp

lemma demo_entries_plain:
  "\<forall>name\<in>set (entries demo_world (scratch_root demo_world)). plain (platform demo_world) name"
  by (simp add: demo_scratch_root demo_entries demo_platform)
     (simp add: plain_def rooted_def slash_def backslash_def)


section \<open>Properties of the orchestrator\<close>

lemma main_changes_Nil:
  "main_changes [] w = (Exit 0, w\<lparr>stdout := stdout w @ [Print ''No changes to preview!'' []]\<rparr>)"
  by (simp add: main_changes_def seq_def Printf_eq os_Exit_def)

lemma gitStatusMust_empty:
  assumes "cmd_Output w (gitPath w) [''status'', ''--porcelain''] = Some []"
  shows "gitStatusMust w =
           (Ret [], w\<lparr>stdout := stdout w @ [Print fmt_running
                         [PStr (filepath_Base (platform w) (gitPath w)),
                          PStrs [''status'', ''--porcelain'']]],
                      cmds := cmds w @ [(gitPath w, [''status'', ''--porcelain''])]\<rparr>)"
  using assms
  by (simp add: gitStatusMust_def seq_def runCmd_eq fataliferr_val_eq parseGitStatusMust_Nil)

text \<open>\<open>quiet w w'\<close>: from \<open>w\<close> to \<open>w'\<close> no file has changed and no subprocess has run.\<close>

definition quiet :: "world \<Rightarrow> world \<Rightarrow> bool" where
  "quiet w w' =
     (fs w' = fs w \<and> cmds w' = cmds w \<and> platform w' = platform w
      \<and> cmd_Output w' = cmd_Output w \<and> gitPath w' = gitPath w)"

lemma quiet_refl: "quiet w w"
  by (simp add: quiet_def)

lemma quiet_trans: "quiet w w1 \<Longrightarrow> quiet w1 w2 \<Longrightarrow> quiet w w2"
  by (simp add: quiet_def)

lemma hasGitDirMust_quiet: "hasGitDirMust dir w = (r, w') \<Longrightarrow> quiet w w'"
  by (auto simp: hasGitDirMust_def seq_def ioutil_ReadDir_def Let_def fataliferr_val_eq quiet_def
        split: if_splits)

lemma cdToGitRoot_loop_quiet:
  assumes "cdToGitRoot_loop dir0 newDir0 w0 = Some y0"
  shows "quiet w0 (snd y0)"
proof (rule cdToGitRoot_loop.raw_induct[where P = "\<lambda>dir newDir w y. quiet w (snd y)", OF _ assms])
  fix f :: "string \<Rightarrow> string \<Rightarrow> world \<Rightarrow> (string outcome \<times> world) option"
    and dir newDir w y
  assume IH: "\<And>d n v z. f d n v = Some z \<Longrightarrow> quiet v (snd z)"
    and body: "(case hasGitDirMust dir w of
        (Exit n, w1) \<Rightarrow> Some (Exit n, w1)
      | (Ret found, w1) \<Rightarrow>
          if found then Some (Ret newDir, w1)
          else if dir = filepath_Dir (platform w1) dir
          then Some (fatalf fmt_dir_eq [PStr dir, PStr (filepath_Dir (platform w1) dir)] w1)
          else f (filepath_Dir (platform w1) dir) (filepath_Dir (platform w1) dir) w1) = Some y"
  obtain h w1 where h: "hasGitDirMust dir w = (h, w1)" by (cases "hasGitDirMust dir w") auto
  note q = hasGitDirMust_quiet[OF h]
  show "quiet w (snd y)"
  proof (cases h)
    case (Exit n)
    with body h q show ?thesis by auto
  next
    case (Ret found)
    show ?thesis
    proof (cases "found \<or> dir = filepath_Dir (platform w1) dir")
      case True
      with body h Ret q show ?thesis
        by (auto simp: fatalf_eq quiet_def split: if_splits)
    next
      case False
      with body h Ret have "f (filepath_Dir (platform w1) dir) (filepath_Dir (platform w1) dir) w1
          = Some y"
        by simp
      from quiet_trans[OF q IH[OF this]] show ?thesis .
    qed
  qed
qed

lemma cdToGitRoot_quiet: "cdToGitRoot w = Some (r, w') \<Longrightarrow> quiet w w'"
proof -
  assume a: "cdToGitRoot w = Some (r, w')"
  then obtain r1 w1 where l: "cdToGitRoot_loop (cwd w) [] w = Some (r1, w1)"
    by (auto simp: cdToGitRoot_def split: option.splits)
  have q: "quiet w w1" using cdToGitRoot_loop_quiet[OF l] by simp
  from a l have "quiet w1 w'"
    by (auto simp: cdToGitRoot_def seq_def Printf_eq os_Chdir_def quiet_def
          split: outcome.splits if_splits)
  from quiet_trans[OF q this] show ?thesis .
qed

lemma deleteOldDirs_loop_cmds:
  "deleteOldDirs_loop files w = (r, w') \<Longrightarrow> cmds w' = cmds w"
proof (induction files arbitrary: w)
  case Nil
  then show ?case by simp
next
  case (Cons fi files)
  then show ?case
    by (auto simp: Let_def seq_def Printf_eq os_RemoveAll_eq fataliferr_eq split: if_splits)
qed

lemma mkdirs_cmds: "mkdirs ks w = (e, w') \<Longrightarrow> cmds w' = cmds w"
  by (induction ks arbitrary: w) (auto simp: put_def split: if_splits)

lemma main_start_cmds:
  assumes "main_start w = (r, w')"
  shows "cmds w' = cmds w"
proof -
  have d1: "cmds w1 = cmds w0" if "detectExeMust n w0 = (r1, w1)" for n w0 r1 w1
    using that
    by (auto simp: detectExeMust_def seq_def Printf_eq fataliferr_eq split: option.splits)
  have d: "cmds w1 = cmds w0" if "detectExesMust w0 = (r1, w1)" for w0 r1 w1
  proof -
    obtain a wa where a: "detectExeMust ''git'' w0 = (a, wa)"
      by (cases "detectExeMust ''git'' w0") auto
    show ?thesis
    proof (cases a)
      case (Exit n)
      with a that d1[OF a] show ?thesis by (simp add: detectExesMust_def seq_def)
    next
      case (Ret p)
      obtain b wb where b: "detectExeMust ''WinMergeU'' (wa\<lparr>gitPath := p\<rparr>) = (b, wb)"
        by (cases "detectExeMust ''WinMergeU'' (wa\<lparr>gitPath := p\<rparr>)") auto
      with a Ret that d1[OF a] d1[OF b] show ?thesis
        by (cases b) (auto simp: detectExesMust_def seq_def)
    qed
  qed
  have c: "cmds w1 = cmds w0" if "createTempDirMust w0 = (r1, w1)" for w0 r1 w1
    using that
    by (auto simp: createTempDirMust_def getWinTempDirMust_def seq_def fatalif_eq fataliferr_eq
          os_MkdirAll_def Let_def
          split: if_splits prod.splits option.splits dest: mkdirs_cmds)
  have s: "cmds w1 = cmds w0" if "deleteOldDirs w0 = (r1, w1)" for w0 r1 w1
    using that
    by (auto simp: deleteOldDirs_def seq_def ioutil_ReadDir_def Let_def fataliferr_val_eq
          split: if_splits dest: deleteOldDirs_loop_cmds)
  obtain r1 w1 where 1: "detectExesMust w = (r1, w1)" by (cases "detectExesMust w") auto
  obtain r2 w2 where 2: "createTempDirMust w1 = (r2, w2)" by (cases "createTempDirMust w1") auto
  obtain r3 w3 where 3: "deleteOldDirs (w2\<lparr>stdout := stdout w2 @ [Print fmt_temp_dir [PStr (tempDir w2)]]\<rparr>) = (r3, w3)"
    by (cases "deleteOldDirs (w2\<lparr>stdout := stdout w2 @ [Print fmt_temp_dir [PStr (tempDir w2)]]\<rparr>)") auto
  from assms 1 2 3 d[OF 1] c[OF 2] s[OF 3] show ?thesis
    by (cases r1; cases r2) (auto simp: main_start_def seq_def Printf_eq)
qed

text \<open>
  \<^bold>\<open>C8.\<close> A run that reaches the status query (the tools are found, the scratch root is
  set up and swept, the repository root is found) and whose \<^verbatim>\<open>git status\<close> prints nothing:
  the parse of the empty output is the empty list; \<^verbatim>\<open>main\<close> ends with status 0 after
  printing \<^verbatim>\<open>No changes to preview!\<close>; the files are as the sweep left them, so no snapshot
  directory has been made; and the only subprocess of the run is \<^verbatim>\<open>git status\<close>, so the
  viewer has not been run.
\<close>

theorem no_changes_run:
  assumes "main_start w = (Ret (), w1)"
    and "cdToGitRoot w1 = Some (Ret (), w2)"
    and "cmd_Output w2 (gitPath w2) [''status'', ''--porcelain''] = Some []"
  shows "parseGitStatusMust (platform w2) [] False = Inr []
         \<and> (\<exists>w'. main w = Some (0, w')
               \<and> fs w' = fs w1
               \<and> cmds w' = cmds w @ [(gitPath w2, [''status'', ''--porcelain''])]
               \<and> stdout w' = stdout w2
                    @ [Print fmt_running [PStr (filepath_Base (platform w2) (gitPath w2)),
                                          PStrs [''status'', ''--porcelain'']],
                       Print ''No changes to preview!'' []])"
proof -
  have q: "quiet w1 w2" by (rule cdToGitRoot_quiet[OF assms(2)])
  have c: "cmds w1 = cmds w" by (rule main_start_cmds[OF assms(1)])
  let ?w3 = "w2\<lparr>stdout := stdout w2 @ [Print fmt_running
                         [PStr (filepath_Base (platform w2) (gitPath w2)),
                          PStrs [''status'', ''--porcelain'']]],
                      cmds := cmds w2 @ [(gitPath w2, [''status'', ''--porcelain''])]\<rparr>"
  let ?w4 = "?w3\<lparr>stdout := stdout ?w3 @ [Print ''No changes to preview!'' []]\<rparr>"
  have "seq gitStatusMust main_changes w2 = (Exit 0, ?w4)"
    by (simp add: seq_def gitStatusMust_empty[OF assms(3)] main_changes_Nil)
  then have "main w = Some (0, ?w4)"
    using assms(1,2) by (simp add: main_def status_of_def)
  moreover have "fs ?w4 = fs w1" using q by (simp add: quiet_def)
  moreover have "cmds ?w4 = cmds w @ [(gitPath w2, [''status'', ''--porcelain''])]"
    using q c by (simp add: quiet_def)
  ultimately show ?thesis by (simp add: parseGitStatusMust_Nil)
qed

lemma resolve_upd [simp]:
  "resolve (w\<lparr>cmds := c\<rparr>) p = resolve w p"
  "resolve (w\<lparr>gitPath := g\<rparr>) p = resolve w p"
  "resolve (w\<lparr>winMergePath := m\<rparr>) p = resolve w p"
  "resolve (w\<lparr>tempDir := t\<rparr>) p = resolve w p"
  by (simp_all add: resolve_def)

lemma lookup_upd [simp]:
  "lookup (w\<lparr>stdout := s\<rparr>) k = lookup w k"
  "lookup (w\<lparr>cmds := c\<rparr>) k = lookup w k"
  "lookup (w\<lparr>gitPath := g\<rparr>) k = lookup w k"
  "lookup (w\<lparr>winMergePath := m\<rparr>) k = lookup w k"
  "lookup (w\<lparr>tempDir := t\<rparr>) k = lookup w k"
  by (simp_all add: lookup_def)

lemma isDir_upd [simp]:
  "isDir (w\<lparr>stdout := s\<rparr>) k = isDir w k"
  "isDir (w\<lparr>cmds := c\<rparr>) k = isDir w k"
  "isDir (w\<lparr>gitPath := g\<rparr>) k = isDir w k"
  "isDir (w\<lparr>winMergePath := m\<rparr>) k = isDir w k"
  "isDir (w\<lparr>tempDir := t\<rparr>) k = isDir w k"
  by (simp_all add: isDir_def)

lemma entries_upd [simp]:
  "entries (w\<lparr>stdout := s\<rparr>) k = entries w k"
  "entries (w\<lparr>cmds := c\<rparr>) k = entries w k"
  "entries (w\<lparr>gitPath := g\<rparr>) k = entries w k"
  "entries (w\<lparr>winMergePath := m\<rparr>) k = entries w k"
  "entries (w\<lparr>tempDir := t\<rparr>) k = entries w k"
  by (simp_all add: entries_def)

lemma info_upd [simp]:
  "info (w\<lparr>stdout := s\<rparr>) k = info w k"
  "info (w\<lparr>cmds := c\<rparr>) k = info w k"
  "info (w\<lparr>gitPath := g\<rparr>) k = info w k"
  "info (w\<lparr>winMergePath := m\<rparr>) k = info w k"
  "info (w\<lparr>tempDir := t\<rparr>) k = info w k"
  by (simp_all add: info_def fun_eq_iff)

text \<open>The world of the examples at the start of a run in a clean repository: nothing
  printed or run yet, the three variables unset, an empty scratch root, and a
  \<^verbatim>\<open>git status\<close> that prints nothing.\<close>

definition demo_start :: world where
  "demo_start = demo_world\<lparr>
     fs := [([''C:''], Dir 0),
            ([''C:'', ''repo''], Dir 0),
            ([''C:'', ''repo'', ''.git''], Dir 0),
            ([''C:'', ''Temp''], Dir 0),
            (demo_root, Dir 0)],
     gitPath := [], winMergePath := [], tempDir := []\<rparr>"

definition demo_ready :: world where
  "demo_ready = demo_start\<lparr>
     stdout := [Print fmt_is [PStr ''git'', PStr ''git.exe''],
                Print fmt_is [PStr ''WinMergeU'', PStr ''WinMergeU.exe''],
                Print fmt_temp_dir [PStr demo_tempDir]],
     gitPath := ''git.exe'', winMergePath := ''WinMergeU.exe'', tempDir := demo_tempDir\<rparr>"

lemma demo_start_resolve:
  "resolve demo_start demo_tempDir = demo_root"
  "resolve demo_start (cwd demo_start) = [''C:'', ''repo'']"
  by code_simp+

lemma demo_start_entries:
  "entries demo_start demo_root = []"
  "entries demo_start [''C:'', ''repo''] = [''.git'']"
  by code_simp+

lemma demo_start_isDir:
  "isDir demo_start [''C:'']" "isDir demo_start [''C:'', ''Temp'']"
  "isDir demo_start demo_root" "isDir demo_start [''C:'', ''repo'']"
  "isDir demo_start [''C:'', ''repo'', ''.git'']"
  by code_simp+

lemma demo_start_fields:
  "environ demo_start ''TEMP'' = ''C:'' @ [backslash] @ ''Temp''"
  "lookPath demo_start ''git'' = Some ''git.exe''"
  "lookPath demo_start ''WinMergeU'' = Some ''WinMergeU.exe''"
  "platform demo_start = Windows" "stdout demo_start = []" "cmds demo_start = []"
  "cmd_Output demo_start ''git.exe'' [''status'', ''--porcelain''] = Some []"
  by (simp_all add: demo_start_def demo_world_def)

lemma demo_main_start: "main_start demo_start = (Ret (), demo_ready)"
proof -
  let ?D = "demo_start\<lparr>stdout := [Print fmt_is [PStr ''git'', PStr ''git.exe''],
                Print fmt_is [PStr ''WinMergeU'', PStr ''WinMergeU.exe'']],
     gitPath := ''git.exe'', winMergePath := ''WinMergeU.exe''\<rparr>"
  have d: "detectExesMust demo_start = (Ret (), ?D)"
    by (simp add: detectExesMust_def detectExeMust_def seq_def Printf_eq demo_start_fields)
  have j: "filepath_Join Windows (''C:'' @ [backslash] @ ''Temp'') ''sum-diff-preview'' = demo_tempDir"
    by (simp add: filepath_Join_def demo_tempDir_def)
  have m: "os_MkdirAll demo_tempDir (?D\<lparr>tempDir := demo_tempDir\<rparr>) = (None, ?D\<lparr>tempDir := demo_tempDir\<rparr>)"
    by (rule os_MkdirAll_existing) (simp add: demo_start_resolve demo_start_isDir upt_rec)
  have c: "createTempDirMust ?D = (Ret (), ?D\<lparr>tempDir := demo_tempDir\<rparr>)"
    using m by (simp add: createTempDirMust_def getWinTempDirMust_def seq_def demo_start_fields
          j[unfolded append.simps] fataliferr_eq)
  let ?E = "?D\<lparr>tempDir := demo_tempDir, stdout := stdout ?D @ [Print fmt_temp_dir [PStr demo_tempDir]]\<rparr>"
  have s: "deleteOldDirs ?E = (Ret (), ?E)"
    by (simp add: deleteOldDirs_def seq_def ioutil_ReadDir_def Let_def fataliferr_val_eq
          demo_start_resolve demo_start_isDir demo_start_entries)
  have "main_start demo_start = (Ret (), ?E)"
    using s by (simp add: main_start_def seq_def d c Printf_eq)
  then show ?thesis by (simp add: demo_ready_def)
qed

lemma demo_cdToGitRoot: "cdToGitRoot demo_ready = Some (Ret (), demo_ready)"
proof -
  have c: "cwd demo_ready = cwd demo_start" by (simp add: demo_ready_def)
  have t: "strings_ToLower ''.git'' = ''.git''" by code_simp
  have "hasGitDirMust (cwd demo_ready) demo_ready = (Ret True, demo_ready)"
    unfolding c
    by (simp add: hasGitDirMust_def seq_def ioutil_ReadDir_def Let_def fataliferr_val_eq
          demo_ready_def demo_start_resolve demo_start_isDir demo_start_entries t)
       (simp add: info_def isDir_def lookup_def demo_start_def split: option.splits node.splits)
  then have "cdToGitRoot_loop (cwd demo_ready) [] demo_ready = Some (Ret [], demo_ready)"
    by (subst cdToGitRoot_loop.simps) simp
  then show ?thesis by (simp add: cdToGitRoot_def)
qed

theorem no_changes_run_witness:
  "\<exists>w'. main demo_start = Some (0, w')
        \<and> fs w' = fs demo_start
        \<and> cmds w' = [(''git.exe'', [''status'', ''--porcelain''])]
        \<and> stdout w' = stdout demo_ready
             @ [Print fmt_running [PStr ''git.exe'', PStrs [''status'', ''--porcelain'']],
                Print ''No changes to preview!'' []]"
proof -
  have g: "gitPath demo_ready = ''git.exe''" "platform demo_ready = Windows"
    "cmd_Output demo_ready = cmd_Output demo_start" "fs demo_ready = fs demo_start"
    by (simp_all add: demo_ready_def demo_start_fields)
  have o: "cmd_Output demo_ready (gitPath demo_ready) [''status'', ''--porcelain''] = Some []"
    by (simp add: g demo_start_fields)
  have b: "filepath_Base Windows ''git.exe'' = ''git.exe''" by code_simp
  from no_changes_run[OF demo_main_start demo_cdToGitRoot o]
  show ?thesis by (simp add: g b demo_start_fields)
qed

end
